theory Spec2Isabelle
  imports Complex_Main "HOL-Library.Sublist"
begin

section \<open>Configuration\<close>

text \<open>
  The module-level constants of \<^verbatim>\<open>downloading_script.py\<close> (lines 11-35), after the
  \<^verbatim>\<open>int(...)\<close> / \<^verbatim>\<open>float(...)\<close> conversions of the environment strings. Integers
  are Python's unbounded ints, the three backoff values are floats, read here as reals.
  Paths, the token and the browser settings do not influence control flow and are left out.
\<close>

record config =
  COUNT :: int
  PAGE_SIZE :: int
  MAX_LOOPS :: int
  MAX_CONSECUTIVE_ERRORS :: int
  BACKOFF_BASE_SEC :: real
  BACKOFF_MAX_SEC :: real
  JITTER_SEC :: real
  RESET_SESSION_AFTER_ERRORS :: int
  POPULAR_SOUND_MIN_USES :: int

definition default_config :: config where
  "default_config =
     \<lparr> COUNT = 1000, PAGE_SIZE = 20, MAX_LOOPS = 999999, MAX_CONSECUTIVE_ERRORS = 6,
       BACKOFF_BASE_SEC = 2, BACKOFF_MAX_SEC = 30, JITTER_SEC = 8 / 10,
       RESET_SESSION_AFTER_ERRORS = 3, POPULAR_SOUND_MIN_USES = 1000 \<rparr>"

section \<open>The content source as a script of responses\<close>

text \<open>
  Everything outside the script (the TikTok client, the file system, the random number
  generator) is a collaborator whose answers the loop only observes. One yielded video is
  described by what its processing meets, in the order of the source:
  \<^item> \<open>vid\<close>: the outcome of \<^verbatim>\<open>video.as_dict\<close> and \<^verbatim>\<open>data.get("id")\<close> (lines 161-163):
    an exception, a missing id (\<^verbatim>\<open>None\<close>), or a string (possibly empty);
  \<^item> \<open>music_id\<close>: the value of line 193, \<open>None\<close> standing for every falsy value (no
    music object, no id); \<open>music_lookup\<close> and \<open>sound_lookup\<close>: what \<^verbatim>\<open>api.music(id)\<close> and
    \<^verbatim>\<open>api.sound(id)\<close> answer in \<^verbatim>\<open>_fetch_music_usage_count\<close>: an exception, a record
    without an integer \<^verbatim>\<open>videoCount\<close>, or an integer count;
  \<^item> \<open>fate\<close>: how far lines 167-242 get: an exception before the music lookup (detail
    fetch and enrichment, lines 167-193), an exception after it (lines 202-206), an
    exception in the media download (lines 211-214, caught by the handler of line 215), an
    exception in \<^verbatim>\<open>csv_writer.writerow\<close> (nothing written), an exception in
    \<^verbatim>\<open>csv_file.flush\<close> (the row stays in the buffer of the file object and reaches the
    file with the next flush or with \<^verbatim>\<open>close\<close>), an exception in \<^verbatim>\<open>json.dumps\<close> or
    \<^verbatim>\<open>jsonl_file.write\<close> (no line written), an exception in \<^verbatim>\<open>jsonl_file.flush\<close> (the
    line stays in the buffer and reaches the file later, as for the CSV), or a captured
    row;
  \<^item> \<open>item_pause\<close>: the draw of \<^verbatim>\<open>random.random()\<close> behind \<^verbatim>\<open>random.uniform(0.3, 0.9)\<close>;
  \<^item> \<open>item_session_ok\<close>: whether \<^verbatim>\<open>_new_session\<close> returns (rather than raises) when the
    item handler of this video calls it.
  Console output is taken not to fail.
\<close>

datatype id_read = IdRaises | IdAbsent | Id string

datatype lookup = LookupRaises | NoCount | Count int

datatype 'r fate =
    DetailRaises | StatsRaises | DownloadRaises | CsvRaises | CsvFlushRaises 'r
  | JsonlRaises 'r | JsonlFlushRaises 'r | Captured 'r

record 'r video =
  vid :: id_read
  music_id :: "string option"
  music_lookup :: lookup
  sound_lookup :: lookup
  fate :: "'r fate"
  item_pause :: real
  item_session_ok :: bool

text \<open>
  One call of \<^verbatim>\<open>api.trending.videos(count=page_target)\<close>: the videos the generator
  yields, whether it raises after the last of them, the two random draws of the page
  (inter-page pause, backoff jitter) and whether \<^verbatim>\<open>_new_session\<close> returns when the page
  handler calls it.
\<close>

record 'r page =
  videos :: "'r video list"
  gen_raises :: bool
  page_pause :: real
  jitter :: real
  page_session_ok :: bool

text \<open>
  The world: whether the first \<^verbatim>\<open>_new_session\<close> (line 144) returns, and the page served
  for each loop number and requested count.
\<close>

record 'r world =
  initial_session_ok :: bool
  trending :: "nat \<Rightarrow> int \<Rightarrow> 'r page"

section \<open>Run state\<close>

text \<open>
  The local variables of \<^verbatim>\<open>trending_videos\<close> (lines 137-141) and what the run has done
  so far: rows written to the CSV and to the JSONL file, in the order in which they reach
  the file (a row is the \<^verbatim>\<open>video_id\<close>, the \<^verbatim>\<open>music_uses_count\<close> and the remaining
  fields), media files saved, durations slept, sessions created. The counters start at 0
  and are only incremented or zeroed, hence naturals.
\<close>

record 'r state =
  downloaded_count :: nat
  seen_ids :: "string set"
  consecutive_errors :: nat
  loops :: nat
  music_usage_cache :: "string option \<rightharpoonup> int option"
  csv_rows :: "(string \<times> int option \<times> 'r) list"
  jsonl_lines :: "(string \<times> int option \<times> 'r) list"
  saved_files :: "string list"
  pauses :: "real list"
  backoffs :: "real list"
  sessions :: nat

definition initial_state :: "'r state" where
  "initial_state =
     \<lparr> downloaded_count = 0, seen_ids = {}, consecutive_errors = 0, loops = 0,
       music_usage_cache = Map.empty,
       csv_rows = [], jsonl_lines = [], saved_files = [], pauses = [], backoffs = [],
       sessions = 0 \<rparr>"

text \<open>\<^verbatim>\<open>random.uniform(a, b)\<close> is \<^verbatim>\<open>a + (b - a) * random()\<close>.\<close>

definition uniform :: "real \<Rightarrow> real \<Rightarrow> real \<Rightarrow> real" where
  "uniform a b u = a + (b - a) * u"

section \<open>Processing one video\<close>

datatype flow = Continue | Raise

text \<open>
  Lines 74-109: \<^verbatim>\<open>_fetch_music_usage_count\<close>. Both lookups run inside a \<^verbatim>\<open>try\<close> whose
  handler is \<^verbatim>\<open>pass\<close>: a lookup that raises, like one that finds no integer count, falls
  through to the next one and at last to \<^verbatim>\<open>return None\<close>. Nothing is raised to the caller.
\<close>

definition fetch_music_usage_count :: "'r video \<Rightarrow> int option" where
  "fetch_music_usage_count v =
     (case music_id v of
        None \<Rightarrow> None
      | Some i \<Rightarrow>
          (case music_lookup v of
             Count n \<Rightarrow> Some n
           | _ \<Rightarrow> (case sound_lookup v of Count n \<Rightarrow> Some n | _ \<Rightarrow> None)))"

text \<open>Lines 194-198: the usage count, from the cache or looked up and then cached.\<close>

definition resolve_music :: "'r state \<Rightarrow> 'r video \<Rightarrow> int option \<times> 'r state" where
  "resolve_music st v =
     (case music_usage_cache st (music_id v) of
        Some c \<Rightarrow> (c, st)
      | None \<Rightarrow>
          (fetch_music_usage_count v,
           st\<lparr>music_usage_cache :=
                 (music_usage_cache st)(music_id v \<mapsto> fetch_music_usage_count v)\<rparr>))"

text \<open>
  Lines 199-249: what follows the music lookup, for the id \<open>s\<close> and the usage count \<open>c\<close>.
  (The first case is not reached: \<open>item_try\<close> has left before.)
\<close>

definition after_lookup :: "'r state \<Rightarrow> string \<Rightarrow> int option \<Rightarrow> 'r video \<Rightarrow> 'r state \<times> flow" where
  "after_lookup st s c v =
     (case fate v of
        DetailRaises \<Rightarrow> (st, Raise)
      | StatsRaises \<Rightarrow> (st, Raise)
      | DownloadRaises \<Rightarrow> (st, Continue)
      | CsvRaises \<Rightarrow> (st\<lparr>saved_files := saved_files st @ [s]\<rparr>, Raise)
      | CsvFlushRaises r \<Rightarrow>
          (st\<lparr>saved_files := saved_files st @ [s],
               csv_rows := csv_rows st @ [(s, c, r)]\<rparr>, Raise)
      | JsonlRaises r \<Rightarrow>
          (st\<lparr>saved_files := saved_files st @ [s],
               csv_rows := csv_rows st @ [(s, c, r)]\<rparr>, Raise)
      | JsonlFlushRaises r \<Rightarrow>
          (st\<lparr>saved_files := saved_files st @ [s],
               csv_rows := csv_rows st @ [(s, c, r)],
               jsonl_lines := jsonl_lines st @ [(s, c, r)]\<rparr>, Raise)
      | Captured r \<Rightarrow>
          (st\<lparr>saved_files := saved_files st @ [s],
               csv_rows := csv_rows st @ [(s, c, r)],
               jsonl_lines := jsonl_lines st @ [(s, c, r)],
               downloaded_count := downloaded_count st + 1,
               consecutive_errors := 0,
               pauses := pauses st @ [uniform (3 / 10) (9 / 10) (item_pause v)]\<rparr>,
           Continue))"

text \<open>Lines 160-249: the body of the inner \<^verbatim>\<open>try\<close>.\<close>

definition item_try :: "'r state \<Rightarrow> 'r video \<Rightarrow> 'r state \<times> flow" where
  "item_try st v =
     (case vid v of
        IdRaises \<Rightarrow> (st, Raise)
      | IdAbsent \<Rightarrow> (st, Continue)
      | Id s \<Rightarrow>
          if s = [] \<or> s \<in> seen_ids st then (st, Continue)
          else if fate v = DetailRaises
            then (st\<lparr>seen_ids := insert s (seen_ids st)\<rparr>, Raise)
          else after_lookup (snd (resolve_music (st\<lparr>seen_ids := insert s (seen_ids st)\<rparr>) v))
                 s (fst (resolve_music (st\<lparr>seen_ids := insert s (seen_ids st)\<rparr>) v)) v)"

text \<open>
  Lines 251-258: the item handler. An exception of \<^verbatim>\<open>_new_session\<close> raised here leaves
  the \<^verbatim>\<open>async for\<close> and reaches the page handler.
\<close>

definition item_except :: "config \<Rightarrow> 'r state \<Rightarrow> 'r video \<Rightarrow> 'r state \<times> flow" where
  "item_except cfg st v =
     (let st1 = st\<lparr>consecutive_errors := consecutive_errors st + 1\<rparr> in
      if RESET_SESSION_AFTER_ERRORS cfg \<le> int (consecutive_errors st1) then
        (if item_session_ok v
         then (st1\<lparr>sessions := sessions st1 + 1, consecutive_errors := 0\<rparr>, Continue)
         else (st1, Raise))
      else (st1, Continue))"

definition item :: "config \<Rightarrow> 'r state \<Rightarrow> 'r video \<Rightarrow> 'r state \<times> flow" where
  "item cfg st v =
     (case item_try st v of
        (st1, Raise) \<Rightarrow> item_except cfg st1 v
      | (st1, Continue) \<Rightarrow> (st1, Continue))"

section \<open>One page\<close>

datatype page_flow = Exhausted | Broke | Raised

text \<open>
  Lines 154-258: the \<^verbatim>\<open>async for\<close>. The guard of line 157 breaks at the first video
  yielded after the target is reached.
\<close>

fun page_items :: "config \<Rightarrow> 'r state \<Rightarrow> 'r video list \<Rightarrow> 'r state \<times> page_flow" where
  "page_items cfg st [] = (st, Exhausted)"
| "page_items cfg st (v # vs) =
     (if COUNT cfg \<le> int (downloaded_count st) then (st, Broke)
      else (case item cfg st v of
              (st1, Raise) \<Rightarrow> (st1, Raised)
            | (st1, Continue) \<Rightarrow> page_items cfg st1 vs))"

text \<open>
  Lines 151-265: the body of the outer \<^verbatim>\<open>try\<close>. \<^verbatim>\<open>got_any\<close> is true exactly when the
  generator yielded a video; the generator's own exception is met only when the loop asks
  for a video after the last one.
\<close>

definition page_try :: "config \<Rightarrow> 'r state \<Rightarrow> 'r page \<Rightarrow> 'r state \<times> flow" where
  "page_try cfg st pg =
     (case page_items cfg st (videos pg) of
        (st1, Raised) \<Rightarrow> (st1, Raise)
      | (st1, Exhausted) \<Rightarrow>
          if gen_raises pg then (st1, Raise)
          else if videos pg = [] then (st1, Raise)
          else (st1\<lparr>pauses := pauses st1 @ [uniform (12 / 10) (25 / 10) (page_pause pg)]\<rparr>,
                Continue)
      | (st1, Broke) \<Rightarrow>
          (st1\<lparr>pauses := pauses st1 @ [uniform (12 / 10) (25 / 10) (page_pause pg)]\<rparr>,
           Continue))"

text \<open>Line 270: the deterministic part of the backoff, for the counter after its increment.\<close>

definition expo :: "config \<Rightarrow> nat \<Rightarrow> real" where
  "expo cfg n = min (BACKOFF_MAX_SEC cfg) (BACKOFF_BASE_SEC cfg * 2 ^ (min n 6))"

text \<open>
  Lines 267-278: the page handler. An exception of \<^verbatim>\<open>_new_session\<close> raised here is
  inside no \<^verbatim>\<open>try\<close> and leaves \<^verbatim>\<open>trending_videos\<close>.
\<close>

definition page_except :: "config \<Rightarrow> 'r state \<Rightarrow> 'r page \<Rightarrow> 'r state \<times> flow" where
  "page_except cfg st pg =
     (let st1 = st\<lparr>consecutive_errors := consecutive_errors st + 1\<rparr>;
          sleep_for = expo cfg (consecutive_errors st1) + uniform 0 (JITTER_SEC cfg) (jitter pg);
          st2 = st1\<lparr>backoffs := backoffs st1 @ [sleep_for]\<rparr>
      in if RESET_SESSION_AFTER_ERRORS cfg \<le> int (consecutive_errors st2) then
           (if page_session_ok pg
            then (st2\<lparr>sessions := sessions st2 + 1, consecutive_errors := 0\<rparr>, Continue)
            else (st2, Raise))
         else (st2, Continue))"

text \<open>Lines 151-278: the outer \<^verbatim>\<open>try\<close> with its handler.\<close>

definition page_guarded :: "config \<Rightarrow> 'r state \<Rightarrow> 'r page \<Rightarrow> 'r state \<times> flow" where
  "page_guarded cfg st pg =
     (case page_try cfg st pg of
        (st1, Raise) \<Rightarrow> page_except cfg st1 pg
      | (st1, Continue) \<Rightarrow> (st1, Continue))"

text \<open>Lines 148 and 154: the page requested from the content source.\<close>

definition request :: "config \<Rightarrow> 'r world \<Rightarrow> 'r state \<Rightarrow> 'r page" where
  "request cfg w st =
     trending w (loops st) (min (PAGE_SIZE cfg) (COUNT cfg - int (downloaded_count st)))"

text \<open>Lines 147-278: one turn of the \<^verbatim>\<open>while\<close> loop.\<close>

definition iteration :: "config \<Rightarrow> 'r world \<Rightarrow> 'r state \<Rightarrow> 'r state \<times> flow" where
  "iteration cfg w st =
     (let st1 = st\<lparr>loops := loops st + 1\<rparr>
      in page_guarded cfg st1 (request cfg w st1))"

section \<open>The loop and the run\<close>

lemma loops_resolve_music: "loops (snd (resolve_music st v)) = loops st"
  by (simp add: resolve_music_def split: option.split)

lemma loops_after_lookup: "loops (fst (after_lookup st s c v)) = loops st"
  by (simp add: after_lookup_def split: fate.split)

lemma loops_item_try: "loops (fst (item_try st v)) = loops st"
  by (simp add: item_try_def loops_after_lookup loops_resolve_music split: id_read.split)

lemma loops_item_except: "loops (fst (item_except cfg st v)) = loops st"
  by (simp add: item_except_def Let_def)

lemma loops_item: "loops (fst (item cfg st v)) = loops st"
proof (cases "item_try st v")
  case (Pair st1 f)
  with loops_item_try [of st v] have "loops st1 = loops st" by simp
  with Pair loops_item_except [of cfg st1 v] show ?thesis
    by (cases f) (simp_all add: item_def)
qed

lemma loops_page_items: "loops (fst (page_items cfg st vs)) = loops st"
proof (induction vs arbitrary: st)
  case Nil
  show ?case by simp
next
  case (Cons v vs)
  show ?case
  proof (cases "item cfg st v")
    case (Pair st1 f)
    with loops_item [of cfg st v] have "loops st1 = loops st" by simp
    with Pair Cons.IH [of st1] show ?thesis by (cases f) simp_all
  qed
qed

lemma loops_page_try: "loops (fst (page_try cfg st pg)) = loops st"
proof (cases "page_items cfg st (videos pg)")
  case (Pair st1 f)
  with loops_page_items [of cfg st "videos pg"] have "loops st1 = loops st" by simp
  with Pair show ?thesis by (cases f) (simp_all add: page_try_def)
qed

lemma loops_page_except: "loops (fst (page_except cfg st pg)) = loops st"
  by (simp add: page_except_def Let_def)

lemma loops_page_guarded: "loops (fst (page_guarded cfg st pg)) = loops st"
proof (cases "page_try cfg st pg")
  case (Pair st1 f)
  with loops_page_try [of cfg st pg] have "loops st1 = loops st" by simp
  with Pair loops_page_except [of cfg st1 pg] show ?thesis
    by (cases f) (simp_all add: page_guarded_def)
qed

lemma loops_iteration: "loops (fst (iteration cfg w st)) = Suc (loops st)"
  by (simp add: iteration_def Let_def loops_page_guarded)

text \<open>
  Line 146: the \<^verbatim>\<open>while\<close> loop. It stops when the target is reached, when the loop
  ceiling is reached, or when an exception leaves the page handler.
\<close>

function run_loop :: "config \<Rightarrow> 'r world \<Rightarrow> 'r state \<Rightarrow> 'r state \<times> flow" where
  "run_loop cfg w st =
     (if int (downloaded_count st) < COUNT cfg \<and> int (loops st) < MAX_LOOPS cfg then
        (case iteration cfg w st of
           (st1, Raise) \<Rightarrow> (st1, Raise)
         | (st1, Continue) \<Rightarrow> run_loop cfg w st1)
      else (st, Continue))"
  by pat_completeness auto
termination
  apply (relation "measure (\<lambda>(cfg, w, st). nat (MAX_LOOPS cfg - int (loops st)))")
   apply simp
  subgoal premises p for cfg w st
    using p loops_iteration [of cfg w st] by (cases "iteration cfg w st") simp
  done

declare run_loop.simps [simp del]

text \<open>The three ways a turn of the loop ends, as rewrite rules.\<close>

lemma run_loop_stop:
  assumes "\<not> (int (downloaded_count st) < COUNT cfg \<and> int (loops st) < MAX_LOOPS cfg)"
  shows "run_loop cfg w st = (st, Continue)"
  by (subst run_loop.simps) (simp only: assms if_False)

lemma run_loop_continue:
  assumes "int (downloaded_count st) < COUNT cfg" and "int (loops st) < MAX_LOOPS cfg"
    and "snd (iteration cfg w st) = Continue"
  shows "run_loop cfg w st = run_loop cfg w (fst (iteration cfg w st))"
proof (cases "iteration cfg w st")
  case (Pair st1 f)
  with assms show ?thesis by (subst run_loop.simps) simp
qed

lemma run_loop_raise:
  assumes "int (downloaded_count st) < COUNT cfg" and "int (loops st) < MAX_LOOPS cfg"
    and "snd (iteration cfg w st) = Raise"
  shows "run_loop cfg w st = (fst (iteration cfg w st), Raise)"
proof (cases "iteration cfg w st")
  case (Pair st1 f)
  with assms show ?thesis by (subst run_loop.simps) simp
qed

text \<open>
  Lines 120-288: the run. \<open>Done\<close>: the loop was left normally, the files were closed and
  the summary of line 285 printed; \<^verbatim>\<open>asyncio.run\<close> returns and the process exits with
  status 0. \<open>Uncaught\<close>: an exception left \<^verbatim>\<open>trending_videos\<close>; no summary is printed and
  the interpreter exits with a traceback and a non-zero status.
\<close>

datatype ending = Done | Uncaught

definition trending_videos :: "config \<Rightarrow> 'r world \<Rightarrow> 'r state \<times> ending" where
  "trending_videos cfg w =
     (if initial_session_ok w then
        (case run_loop cfg w (initial_state\<lparr>sessions := 1\<rparr>) of
           (st, Raise) \<Rightarrow> (st, Uncaught)
         | (st, Continue) \<Rightarrow> (st, Done))
      else (initial_state, Uncaught))"

section \<open>Values read from the records\<close>

text \<open>
  The helpers of lines 38-72 work on what \<^verbatim>\<open>as_dict\<close> holds: decoded JSON. A mapping is
  the list of its items in insertion order, with pairwise different keys. Strings are
  over the code points 0 to 255. The floats \<^verbatim>\<open>nan\<close> and \<^verbatim>\<open>inf\<close> are not represented;
  like every float other than zero they would be truthy, no \<^verbatim>\<open>int\<close> and no mapping.
\<close>

datatype pyval =
    PNone | PBool bool | PInt int | PFloat real | PStr string
  | PList "pyval list" | PDict "(string \<times> pyval) list"

text \<open>
  The exceptions met by the helpers, each with the text that \<^verbatim>\<open>str(e)\<close> gives. All of
  them derive from \<^verbatim>\<open>Exception\<close>.
\<close>

datatype error = AttributeError string | TypeError string | ValueError string


fun type_name :: "pyval \<Rightarrow> string" where
  "type_name PNone = ''NoneType''"
| "type_name (PBool b) = ''bool''"
| "type_name (PInt n) = ''int''"
| "type_name (PFloat x) = ''float''"
| "type_name (PStr s) = ''str''"
| "type_name (PList xs) = ''list''"
| "type_name (PDict kvs) = ''dict''"

definition no_attribute :: "pyval \<Rightarrow> string \<Rightarrow> error" where
  "no_attribute v a =
     AttributeError ([CHR 0x27] @ type_name v @ [CHR 0x27] @ '' object has no attribute ''
                     @ [CHR 0x27] @ a @ [CHR 0x27])"

definition not_iterable :: "pyval \<Rightarrow> error" where
  "not_iterable v = TypeError ([CHR 0x27] @ type_name v @ [CHR 0x27] @ '' object is not iterable'')"

text \<open>The truth value of a value, as \<^verbatim>\<open>or\<close>, \<^verbatim>\<open>not\<close> and \<^verbatim>\<open>if\<close> take it.\<close>

fun truthy :: "pyval \<Rightarrow> bool" where
  "truthy PNone = False"
| "truthy (PBool b) = b"
| "truthy (PInt n) = (n \<noteq> 0)"
| "truthy (PFloat x) = (x \<noteq> 0)"
| "truthy (PStr s) = (s \<noteq> [])"
| "truthy (PList xs) = (xs \<noteq> [])"
| "truthy (PDict kvs) = (kvs \<noteq> [])"

definition py_or :: "pyval \<Rightarrow> pyval \<Rightarrow> pyval" where
  "py_or a b = (if truthy a then a else b)"

definition dict_get :: "(string \<times> pyval) list \<Rightarrow> string \<Rightarrow> pyval" where
  "dict_get kvs k = (case map_of kvs k of None \<Rightarrow> PNone | Some v \<Rightarrow> v)"

text \<open>Whether a value is a mapping, and the items of a mapping (none for another value).\<close>

fun is_dict :: "pyval \<Rightarrow> bool" where
  "is_dict (PDict kvs) = True"
| "is_dict v = False"

fun items_of :: "pyval \<Rightarrow> (string \<times> pyval) list" where
  "items_of (PDict kvs) = kvs"
| "items_of v = []"

text \<open>\<^verbatim>\<open>v.get(k)\<close>: only a mapping has the method.\<close>

fun get :: "pyval \<Rightarrow> string \<Rightarrow> error + pyval" where
  "get (PDict kvs) k = Inr (dict_get kvs k)"
| "get v k = Inl (no_attribute v ''get'')"

text \<open>
  \<^verbatim>\<open>for item in v\<close>: the elements of a list, the characters of a string, the keys of a
  mapping; nothing else among these values can be iterated.
\<close>

fun iterate :: "pyval \<Rightarrow> error + pyval list" where
  "iterate (PList xs) = Inr xs"
| "iterate (PStr s) = Inr (map (\<lambda>c. PStr [c]) s)"
| "iterate (PDict kvs) = Inr (map (\<lambda>kv. PStr (fst kv)) kvs)"
| "iterate v = Inl (not_iterable v)"

section \<open>Decimal numerals\<close>

function show_nat :: "nat \<Rightarrow> string" where
  "show_nat n =
     (if n < 10 then [''0123456789'' ! n]
      else show_nat (n div 10) @ [''0123456789'' ! (n mod 10)])"
  by pat_completeness auto
termination
  by (relation "measure (\<lambda>n. n)") auto

declare show_nat.simps [simp del]

definition show_int :: "int \<Rightarrow> string" where
  "show_int i = (if i < 0 then CHR ''-'' # show_nat (nat (- i)) else show_nat (nat i))"

text \<open>
  The conversion of an \<^verbatim>\<open>int\<close> to a string raises when the number has more decimal
  digits than the interpreter allows (\<^verbatim>\<open>sys.get_int_max_str_digits()\<close>: 4300 by default
  since CPython 3.11, and 0 where there is no limit).
\<close>

definition digit_limit :: "nat \<Rightarrow> error" where
  "digit_limit dmax =
     ValueError (''Exceeds the limit ('' @ show_nat dmax
       @ '' digits) for integer string conversion; use sys.set_int_max_str_digits() to increase the limit'')"

definition str_int :: "nat \<Rightarrow> int \<Rightarrow> error + string" where
  "str_int dmax n = (if dmax \<noteq> 0 \<and> 10 ^ dmax \<le> \<bar>n\<bar> then Inl (digit_limit dmax) else Inr (show_int n))"


section \<open>The timestamp\<close>


section \<open>The hashtags\<close>

text \<open>
  Line 48: \<^verbatim>\<open>f"#{name}"\<close>. A string is taken as it is; \<open>fmt\<close> is the rendering that
  \<^verbatim>\<open>format\<close> gives to a value of another type.
\<close>

fun hashtag :: "(pyval \<Rightarrow> error + string) \<Rightarrow> pyval \<Rightarrow> error + string" where
  "hashtag fmt (PStr s) = Inr (CHR ''#'' # s)"
| "hashtag fmt v = (case fmt v of Inl e \<Rightarrow> Inl e | Inr s \<Rightarrow> Inr (CHR ''#'' # s))"

text \<open>Lines 45-48: the loop over the annotations, left at the first exception.\<close>

fun structured_tags :: "(pyval \<Rightarrow> error + string) \<Rightarrow> pyval list \<Rightarrow> error + string list" where
  "structured_tags fmt [] = Inr []"
| "structured_tags fmt (x # items) =
     (case get x ''hashtagName'' of
        Inl e \<Rightarrow> Inl e
      | Inr name \<Rightarrow>
          if truthy name then
            (case hashtag fmt name of
               Inl e \<Rightarrow> Inl e
             | Inr t \<Rightarrow> (case structured_tags fmt items of
                          Inl e \<Rightarrow> Inl e
                        | Inr ts \<Rightarrow> Inr (t # ts)))
          else structured_tags fmt items)"

text \<open>
  \<^verbatim>\<open>str.split()\<close> cuts at the runs of white space; below code point 256 these are the
  characters 9-13, 28-32, 133 and 160.
\<close>

definition py_isspace :: "char \<Rightarrow> bool" where
  "py_isspace c =
     ((9 \<le> (of_char c :: nat) \<and> (of_char c :: nat) \<le> 13) \<or>
      (28 \<le> (of_char c :: nat) \<and> (of_char c :: nat) \<le> 32) \<or>
      (of_char c :: nat) = 133 \<or> (of_char c :: nat) = 160)"

fun split_from :: "string \<Rightarrow> string \<Rightarrow> string list" where
  "split_from w [] = (if w = [] then [] else [w])"
| "split_from w (c # cs) =
     (if py_isspace c then (if w = [] then split_from [] cs else w # split_from [] cs)
      else split_from (w @ [c]) cs)"

definition py_split :: "string \<Rightarrow> string list" where
  "py_split s = split_from [] s"

fun startswith_hash :: "string \<Rightarrow> bool" where
  "startswith_hash [] = False"
| "startswith_hash (c # cs) = (c = CHR ''#'')"

text \<open>
  \<^verbatim>\<open>str.lower()\<close>: below code point 256 the capital letters are 65-90 and 192-222
  without 215, each 32 below its small letter.
\<close>

definition lower_char :: "char \<Rightarrow> char" where
  "lower_char c =
     (if (65 \<le> (of_char c :: nat) \<and> (of_char c :: nat) \<le> 90) \<or>
         (192 \<le> (of_char c :: nat) \<and> (of_char c :: nat) \<le> 222 \<and> (of_char c :: nat) \<noteq> 215)
      then char_of ((of_char c :: nat) + 32) else c)"

definition py_lower :: "string \<Rightarrow> string" where
  "py_lower s = map lower_char s"

text \<open>Lines 52-58: the tags whose lower-case form was not met before, in order.\<close>

fun uniq_tags :: "string set \<Rightarrow> string list \<Rightarrow> string list" where
  "uniq_tags seen [] = []"
| "uniq_tags seen (t # ts) =
     (if py_lower t \<in> seen then uniq_tags seen ts
      else t # uniq_tags (insert (py_lower t) seen) ts)"

text \<open>Lines 49-51: the caption is asked for only when no annotation gave a tag.\<close>

definition caption_tags :: "pyval \<Rightarrow> error + string list" where
  "caption_tags data =
     (case get data ''desc'' of
        Inl e \<Rightarrow> Inl e
      | Inr d \<Rightarrow>
          (case py_or d (PStr []) of
             PStr s \<Rightarrow> Inr (filter startswith_hash (py_split s))
           | v \<Rightarrow> Inl (no_attribute v ''split'')))"

definition extract_hashtags :: "(pyval \<Rightarrow> error + string) \<Rightarrow> pyval \<Rightarrow> error + string list" where
  "extract_hashtags fmt data =
     (case get data ''textExtra'' of
        Inl e \<Rightarrow> Inl e
      | Inr x \<Rightarrow>
          (case iterate (py_or x (PList [])) of
             Inl e \<Rightarrow> Inl e
           | Inr items \<Rightarrow>
               (case structured_tags fmt items of
                  Inl e \<Rightarrow> Inl e
                | Inr tags \<Rightarrow>
                    if tags \<noteq> [] then Inr (uniq_tags {} tags)
                    else (case caption_tags data of
                            Inl e \<Rightarrow> Inl e
                          | Inr ws \<Rightarrow> Inr (uniq_tags {} ws)))))"

section \<open>The popular sound\<close>



fun int_value :: "pyval \<Rightarrow> int" where
  "int_value (PInt n) = n"
| "int_value (PBool b) = (if b then 1 else 0)"
| "int_value v = 0"




section \<open>Example scripts\<close>

text \<open>Concrete configurations and content sources on which the run is evaluated.\<close>

definition ok_video :: "string \<Rightarrow> unit video" where
  "ok_video s =
     \<lparr>vid = Id s, music_id = None, music_lookup = NoCount, sound_lookup = NoCount,
      fate = Captured (), item_pause = 0, item_session_ok = True\<rparr>"

definition failing_video :: "string \<Rightarrow> unit fate \<Rightarrow> unit video" where
  "failing_video s f =
     \<lparr>vid = Id s, music_id = None, music_lookup = NoCount, sound_lookup = NoCount,
      fate = f, item_pause = 0, item_session_ok = True\<rparr>"



definition page_of :: "unit video list \<Rightarrow> unit page" where
  "page_of vs =
     \<lparr>videos = vs, gen_raises = False, page_pause = 0, jitter = 0, page_session_ok = True\<rparr>"

text \<open>Every page yields the same id twice; the target is 2 and the ceiling 2 pages.\<close>

definition repeating_world :: "unit world" where
  "repeating_world =
     \<lparr>initial_session_ok = True, trending = (\<lambda>n c. page_of [ok_video ''a'', ok_video ''a''])\<rparr>"

definition small_config :: config where
  "small_config = default_config\<lparr>COUNT := 2, MAX_LOOPS := 2\<rparr>"

text \<open>Every page yields three fresh ids; the target is reached in the middle of a page.\<close>

definition abc_world :: "unit world" where
  "abc_world =
     \<lparr>initial_session_ok = True,
      trending = (\<lambda>n c. page_of [ok_video ''a'', ok_video ''b'', ok_video ''c''])\<rparr>"

definition abc_final :: "unit state" where
  "abc_final = fst (trending_videos small_config abc_world)"

text \<open>
  The first page yields an id whose detail fetch raises; every later page yields the same
  id again, now without any failure. The target is 1, the ceiling 3 pages.
\<close>

definition retry_world :: "unit world" where
  "retry_world =
     \<lparr>initial_session_ok = True,
      trending = (\<lambda>n c. if n = 1 then page_of [failing_video ''a'' DetailRaises]
                         else page_of [ok_video ''a''])\<rparr>"

definition retry_config :: config where
  "retry_config = default_config\<lparr>COUNT := 1, MAX_LOOPS := 3\<rparr>"

text \<open>A state in which two errors have been counted.\<close>

definition two_errors :: "unit state" where
  "two_errors = initial_state\<lparr>consecutive_errors := 2\<rparr>"

text \<open>The target is negative.\<close>

definition negative_target :: config where
  "negative_target = default_config\<lparr>COUNT := - 1\<rparr>"

text \<open>
  The first page yields a video whose JSONL line is written but whose flush raises, then
  a video that is captured. The target is 1.
\<close>

definition flush_world :: "unit world" where
  "flush_world =
     \<lparr>initial_session_ok = True,
      trending = (\<lambda>n c. page_of [failing_video ''a'' (JsonlFlushRaises ()), ok_video ''b''])\<rparr>"

definition one_wanted :: config where
  "one_wanted = default_config\<lparr>COUNT := 1, MAX_LOOPS := 3\<rparr>"

text \<open>Pages without videos; the session recreation of the page handler raises or not.\<close>

definition empty_page :: "bool \<Rightarrow> unit page" where
  "empty_page ok =
     \<lparr>videos = [], gen_raises = False, page_pause = 0, jitter = 0, page_session_ok = ok\<rparr>"


definition throttled_world :: "unit world" where
  "throttled_world = \<lparr>initial_session_ok = True, trending = (\<lambda>n c. empty_page True)\<rparr>"

definition four_pages :: config where
  "four_pages = default_config\<lparr>MAX_LOOPS := 4\<rparr>"





text \<open>
  The rendering of an \<^verbatim>\<open>int\<close> under a digit limit; the examples apply it to integers
  only.
\<close>

definition int_format :: "nat \<Rightarrow> pyval \<Rightarrow> error + string" where
  "int_format dmax v = str_int dmax (int_value v)"

text \<open>A record with three annotations, one of them a mention, and a caption with one tag.\<close>

definition annotations :: "pyval list" where
  "annotations =
     [PDict [(''hashtagName'', PStr ''Fun'')], PDict [(''hashtagName'', PStr [])],
      PDict [(''hashtagName'', PStr ''fun'')], PDict [(''hashtagName'', PStr ''NEW'')]]"

definition annotated_record :: "(string \<times> pyval) list" where
  "annotated_record = [(''textExtra'', PList annotations), (''desc'', PStr ''look #other'')]"

definition plain_record :: "(string \<times> pyval) list" where
  "plain_record = [(''desc'', PStr ''check this #Fun #fun #NEW'')]"

section \<open>State predicates\<close>

text \<open>
  The ids of the JSONL lines are pairwise different and all in \<^verbatim>\<open>seen_ids\<close>; the counter
  equals the number of JSONL lines; the counter is at most that number; the counter is at
  most the target.
\<close>

definition dedup_inv :: "'r state \<Rightarrow> bool" where
  "dedup_inv st =
     (set (map fst (jsonl_lines st)) \<subseteq> seen_ids st \<and> distinct (map fst (jsonl_lines st)))"

definition counted :: "'r state \<Rightarrow> bool" where
  "counted st = (downloaded_count st = length (jsonl_lines st))"

definition at_most_lines :: "'r state \<Rightarrow> bool" where
  "at_most_lines st = (downloaded_count st \<le> length (jsonl_lines st))"

definition bounded :: "config \<Rightarrow> 'r state \<Rightarrow> bool" where
  "bounded cfg st = (int (downloaded_count st) \<le> COUNT cfg)"

section \<open>Invariants of the loop\<close>

text \<open>
  A property of the state is \<open>stable\<close> when the bookkeeping of the handlers and of the
  loop head (error counter, session count, sleep logs, loop counter) cannot break it.
\<close>

definition stable :: "('r state \<Rightarrow> bool) \<Rightarrow> bool" where
  "stable P =
     (\<forall>st. P st \<longrightarrow>
        (\<forall>n. P (st\<lparr>consecutive_errors := n\<rparr>)) \<and> (\<forall>n. P (st\<lparr>sessions := n\<rparr>)) \<and>
        (\<forall>n. P (st\<lparr>loops := n\<rparr>)) \<and> (\<forall>ps. P (st\<lparr>pauses := ps\<rparr>)) \<and>
        (\<forall>bs. P (st\<lparr>backoffs := bs\<rparr>)))"

lemma stable_item_except:
  assumes "stable P" and "P st"
  shows "P (fst (item_except cfg st v))"
proof -
  from assms have a: "\<And>n. P (st\<lparr>consecutive_errors := n\<rparr>)"
    by (simp add: stable_def)
  from assms a have b: "\<And>n m. P (st\<lparr>consecutive_errors := n, sessions := m\<rparr>)"
    by (simp add: stable_def)
  from assms b have c: "\<And>n m k. P (st\<lparr>consecutive_errors := n, sessions := m, consecutive_errors := k\<rparr>)"
    by (simp add: stable_def)
  show ?thesis
    using a c by (simp add: item_except_def Let_def)
qed

lemma stable_page_except:
  assumes "stable P" and "P st"
  shows "P (fst (page_except cfg st pg))"
proof -
  from assms have a: "\<And>n. P (st\<lparr>consecutive_errors := n\<rparr>)"
    by (simp add: stable_def)
  from assms a have b: "\<And>n bs. P (st\<lparr>consecutive_errors := n, backoffs := bs\<rparr>)"
    by (simp add: stable_def)
  from assms b have c: "\<And>n bs m. P (st\<lparr>consecutive_errors := n, backoffs := bs, sessions := m\<rparr>)"
    by (simp add: stable_def)
  from assms c have d:
    "\<And>n bs m k. P (st\<lparr>consecutive_errors := n, backoffs := bs, sessions := m, consecutive_errors := k\<rparr>)"
    by (simp add: stable_def)
  show ?thesis
    using b d by (simp add: page_except_def Let_def)
qed

text \<open>
  A stable property that the inner \<^verbatim>\<open>try\<close> body keeps, for the videos served and while the
  target is not reached, is kept by the whole page, by one turn of the loop and by the
  loop.
\<close>

lemma stable_item:
  assumes "stable P" and "P st"
    and "\<And>st. P st \<Longrightarrow> int (downloaded_count st) < COUNT cfg \<Longrightarrow> P (fst (item_try st v))"
    and "int (downloaded_count st) < COUNT cfg"
  shows "P (fst (item cfg st v))"
proof (cases "item_try st v")
  case (Pair st1 f)
  with assms(2-4) have "P st1" by (metis fst_conv)
  with Pair stable_item_except [where P = P, OF assms(1), of st1 cfg v] show ?thesis
    by (cases f) (simp_all add: item_def)
qed

lemma stable_page_items:
  assumes "stable P"
  shows "(\<And>st v. v \<in> set vs \<Longrightarrow> P st \<Longrightarrow> int (downloaded_count st) < COUNT cfg \<Longrightarrow>
            P (fst (item_try st v))) \<Longrightarrow>
         P st \<Longrightarrow> P (fst (page_items cfg st vs))"
proof (induction vs arbitrary: st)
  case Nil
  then show ?case by simp
next
  case (Cons v vs)
  show ?case
  proof (cases "COUNT cfg \<le> int (downloaded_count st)")
    case True
    with Cons.prems(2) show ?thesis by simp
  next
    case False
    then have lt: "int (downloaded_count st) < COUNT cfg" by simp
    obtain st1 f where it: "item cfg st v = (st1, f)" by (cases "item cfg st v")
    have "P (fst (item cfg st v))"
      by (rule stable_item [where P = P and cfg = cfg and v = v, OF assms Cons.prems(2) _ lt])
        (rule Cons.prems(1), simp_all)
    with it have p1: "P st1" by simp
    have "P (fst (page_items cfg st1 vs))"
      by (rule Cons.IH [OF _ p1]) (rule Cons.prems(1), simp_all)
    with it False p1 show ?thesis by (cases f) simp_all
  qed
qed

lemma stable_page_try:
  assumes "stable P"
    and "\<And>st v. v \<in> set (videos pg) \<Longrightarrow> P st \<Longrightarrow> int (downloaded_count st) < COUNT cfg \<Longrightarrow>
           P (fst (item_try st v))"
    and "P st"
  shows "P (fst (page_try cfg st pg))"
proof (cases "page_items cfg st (videos pg)")
  case (Pair st1 f)
  have "P (fst (page_items cfg st (videos pg)))"
    by (rule stable_page_items [where P = P and cfg = cfg, OF assms(1) _ assms(3)])
      (rule assms(2), simp_all)
  with Pair have p: "P st1" by simp
  with assms(1) have "\<And>ps. P (st1\<lparr>pauses := ps\<rparr>)" by (simp add: stable_def)
  with p Pair show ?thesis by (cases f) (simp_all add: page_try_def)
qed

lemma stable_page_guarded:
  assumes "stable P"
    and "\<And>st v. v \<in> set (videos pg) \<Longrightarrow> P st \<Longrightarrow> int (downloaded_count st) < COUNT cfg \<Longrightarrow>
           P (fst (item_try st v))"
    and "P st"
  shows "P (fst (page_guarded cfg st pg))"
proof (cases "page_try cfg st pg")
  case (Pair st1 f)
  have "P (fst (page_try cfg st pg))"
    by (rule stable_page_try [where P = P and cfg = cfg, OF assms(1) _ assms(3)])
      (rule assms(2), simp_all)
  with Pair have "P st1" by simp
  with Pair stable_page_except [where P = P, OF assms(1), of st1 cfg pg] show ?thesis
    by (cases f) (simp_all add: page_guarded_def)
qed

lemma stable_iteration:
  assumes "stable P"
    and "\<And>st v n c. v \<in> set (videos (trending w n c)) \<Longrightarrow> P st \<Longrightarrow>
           int (downloaded_count st) < COUNT cfg \<Longrightarrow> P (fst (item_try st v))"
    and "P st"
  shows "P (fst (iteration cfg w st))"
proof -
  from assms(1,3) have p: "P (st\<lparr>loops := loops st + 1\<rparr>)" by (simp add: stable_def)
  have "P (fst (page_guarded cfg (st\<lparr>loops := loops st + 1\<rparr>)
                 (request cfg w (st\<lparr>loops := loops st + 1\<rparr>))))"
    by (rule stable_page_guarded [where P = P and cfg = cfg, OF assms(1) _ p])
      (rule assms(2), simp_all add: request_def)
  then show ?thesis by (simp add: iteration_def Let_def)
qed

lemma stable_run_loop_aux:
  assumes "stable P"
  shows "(\<And>st v n c. v \<in> set (videos (trending w n c)) \<Longrightarrow> P st \<Longrightarrow>
            int (downloaded_count st) < COUNT cfg \<Longrightarrow> P (fst (item_try st v)))
    \<Longrightarrow> P st \<Longrightarrow> P (fst (run_loop cfg w st))"
proof (induction cfg w st rule: run_loop.induct)
  case (1 cfg w st)
  note step = "1.prems"(1) and p0 = "1.prems"(2)
  show ?case
  proof (cases "int (downloaded_count st) < COUNT cfg \<and> int (loops st) < MAX_LOOPS cfg")
    case False
    with p0 show ?thesis by (simp add: run_loop_stop)
  next
    case True
    obtain st1 f where it: "iteration cfg w st = (st1, f)" by (cases "iteration cfg w st")
    have "P (fst (iteration cfg w st))"
      by (rule stable_iteration [where P = P and cfg = cfg and w = w, OF assms _ p0])
        (rule step, simp_all)
    with it have p: "P st1" by simp
    show ?thesis
    proof (cases f)
      case Raise
      with it True p show ?thesis by (simp add: run_loop_raise)
    next
      case Continue
      with it True have "run_loop cfg w st = run_loop cfg w st1"
        by (simp add: run_loop_continue)
      moreover have "P (fst (run_loop cfg w st1))"
        by (rule "1.IH" [OF True it [symmetric] Continue _ p]) (rule step, simp_all)
      ultimately show ?thesis by simp
    qed
  qed
qed

lemma stable_run_loop:
  assumes "stable P"
    and "\<And>st v n c. v \<in> set (videos (trending w n c)) \<Longrightarrow> P st \<Longrightarrow>
           int (downloaded_count st) < COUNT cfg \<Longrightarrow> P (fst (item_try st v))"
    and "P st"
  shows "P (fst (run_loop cfg w st))"
  by (rule stable_run_loop_aux [where P = P and cfg = cfg and w = w, OF assms(1) _ assms(3)])
    (rule assms(2), simp_all)

lemma stable_trending_videos:
  assumes "stable P"
    and "\<And>st v n c. v \<in> set (videos (trending w n c)) \<Longrightarrow> P st \<Longrightarrow>
           int (downloaded_count st) < COUNT cfg \<Longrightarrow> P (fst (item_try st v))"
    and "P initial_state"
  shows "P (fst (trending_videos cfg w))"
proof (cases "initial_session_ok w")
  case False
  with assms(3) show ?thesis by (simp add: trending_videos_def)
next
  case True
  from assms(1,3) have p: "P (initial_state\<lparr>sessions := 1\<rparr>)" by (simp add: stable_def)
  have "P (fst (run_loop cfg w (initial_state\<lparr>sessions := 1\<rparr>)))"
    by (rule stable_run_loop [where P = P and cfg = cfg and w = w, OF assms(1) _ p])
      (rule assms(2), simp_all)
  with True show ?thesis
    by (cases "run_loop cfg w (initial_state\<lparr>sessions := 1\<rparr>)")
      (simp add: trending_videos_def split: flow.split)
qed

lemmas run_eval = run_loop_stop run_loop_continue run_loop_raise iteration_def page_guarded_def
  page_try_def request_def item_def item_try_def after_lookup_def resolve_music_def
  fetch_music_usage_count_def item_except_def page_except_def Let_def trending_videos_def
  initial_state_def default_config_def expo_def uniform_def

section \<open>Facts about the derived fields\<close>






section \<open>Deduplication\<close>

lemma stable_dedup_inv: "stable dedup_inv"
  by (simp add: stable_def dedup_inv_def)

lemma item_try_dedup_inv: "dedup_inv st \<Longrightarrow> dedup_inv (fst (item_try st v))"
  by (auto simp add: item_try_def after_lookup_def resolve_music_def dedup_inv_def
      split: id_read.split fate.split option.split)

lemma seen_skipped: "vid v = Id s \<Longrightarrow> s \<in> seen_ids st \<Longrightarrow> item cfg st v = (st, Continue)"
  by (simp add: item_def item_try_def)

lemma run_dedup_inv: "dedup_inv (fst (trending_videos cfg w))"
  by (rule stable_trending_videos [where P = dedup_inv, OF stable_dedup_inv])
    (simp_all add: item_try_dedup_inv, simp add: dedup_inv_def initial_state_def)

text \<open>
  Claim C1. At the end of every run the ids of the lines appended to the JSONL file are
  pairwise different (and all in \<^verbatim>\<open>seen_ids\<close>), whatever the pages yield and however often
  an id is yielded; a video whose id is already in \<^verbatim>\<open>seen_ids\<close> leaves the whole state
  unchanged and the loop goes on with the next video.
\<close>

theorem dedup_invariant:
  "distinct (map fst (jsonl_lines (fst (trending_videos cfg w)))) \<and>
   set (map fst (jsonl_lines (fst (trending_videos cfg w))))
     \<subseteq> seen_ids (fst (trending_videos cfg w)) \<and>
   (vid v = Id s \<and> s \<in> seen_ids st \<longrightarrow> item cfg st v = (st, Continue))"
  using run_dedup_inv [of cfg w] seen_skipped [of v s st cfg] by (simp add: dedup_inv_def)

text \<open>
  On the script that yields the id \<^verbatim>\<open>a\<close> twice on each of two pages, one line is
  written, and a further video with that id is skipped.
\<close>

theorem dedup_invariant_witness:
  "map fst (jsonl_lines (fst (trending_videos small_config repeating_world))) = [''a''] \<and>
   distinct (map fst (jsonl_lines (fst (trending_videos small_config repeating_world)))) \<and>
   vid (ok_video ''a'') = Id ''a'' \<and>
   ''a'' \<in> seen_ids (fst (trending_videos small_config repeating_world)) \<and>
   item small_config (fst (trending_videos small_config repeating_world)) (ok_video ''a'') =
     (fst (trending_videos small_config repeating_world), Continue)"
proof -
  have e: "map fst (jsonl_lines (fst (trending_videos small_config repeating_world))) = [''a'']"
    by (simp add: run_eval small_config_def repeating_world_def ok_video_def page_of_def)
  have s: "''a'' \<in> seen_ids (fst (trending_videos small_config repeating_world))"
    by (simp add: run_eval small_config_def repeating_world_def ok_video_def page_of_def)
  have v: "vid (ok_video ''a'') = Id ''a''" by (simp add: ok_video_def)
  from dedup_invariant [of small_config repeating_world "ok_video ''a''" "''a''"
      "fst (trending_videos small_config repeating_world)"] e s v
  show ?thesis by simp
qed

section \<open>Progress and target bound\<close>

lemma stable_counted: "stable counted"
  by (simp add: stable_def counted_def)

lemma item_try_counted:
  "\<forall>r. fate v \<noteq> JsonlFlushRaises r \<Longrightarrow> counted st \<Longrightarrow> counted (fst (item_try st v))"
  by (simp add: item_try_def after_lookup_def resolve_music_def counted_def
      split: id_read.split fate.split option.split)

lemma stable_at_most_lines: "stable at_most_lines"
  by (simp add: stable_def at_most_lines_def)

lemma item_try_at_most_lines: "at_most_lines st \<Longrightarrow> at_most_lines (fst (item_try st v))"
  by (simp add: item_try_def after_lookup_def resolve_music_def at_most_lines_def
      split: id_read.split fate.split option.split)

lemma stable_bounded: "stable (bounded cfg)"
  by (simp add: stable_def bounded_def)

lemma item_try_bounded:
  "int (downloaded_count st) < COUNT cfg \<Longrightarrow> bounded cfg (fst (item_try st v))"
  by (simp add: item_try_def after_lookup_def resolve_music_def bounded_def
      split: id_read.split fate.split option.split)

lemma run_at_most_lines: "at_most_lines (fst (trending_videos cfg w))"
  by (rule stable_trending_videos [where P = at_most_lines, OF stable_at_most_lines])
    (simp_all add: item_try_at_most_lines, simp add: at_most_lines_def initial_state_def)

lemma run_counted:
  assumes "\<forall>n c. \<forall>v \<in> set (videos (trending w n c)). \<forall>r. fate v \<noteq> JsonlFlushRaises r"
  shows "counted (fst (trending_videos cfg w))"
proof (rule stable_trending_videos [where P = counted, OF stable_counted])
  fix st :: "'a state" and v n c
  assume "v \<in> set (videos (trending w n c))" and "counted st"
  with assms show "counted (fst (item_try st v))" by (simp add: item_try_counted)
next
  show "counted (initial_state :: 'a state)" by (simp add: counted_def initial_state_def)
qed

lemma run_bounded: "0 \<le> COUNT cfg \<Longrightarrow> bounded cfg (fst (trending_videos cfg w))"
  by (rule stable_trending_videos [where P = "bounded cfg", OF stable_bounded])
    (simp_all add: item_try_bounded, simp add: bounded_def initial_state_def)

text \<open>
  One video appends nothing and leaves the counter, or appends one JSONL line and adds one
  to the counter, or (when the flush of its line raises) appends one line and leaves the
  counter.
\<close>

lemma item_try_progress:
  "(jsonl_lines (fst (item_try st v)) = jsonl_lines st \<and>
      downloaded_count (fst (item_try st v)) = downloaded_count st) \<or>
   (\<exists>row. jsonl_lines (fst (item_try st v)) = jsonl_lines st @ [row] \<and>
      downloaded_count (fst (item_try st v)) = downloaded_count st + 1) \<or>
   (\<exists>row r. jsonl_lines (fst (item_try st v)) = jsonl_lines st @ [row] \<and>
      downloaded_count (fst (item_try st v)) = downloaded_count st \<and>
      fate v = JsonlFlushRaises r)"
  by (simp add: item_try_def after_lookup_def resolve_music_def
      split: id_read.split fate.split option.split)

lemma item_except_keeps:
  "jsonl_lines (fst (item_except cfg st v)) = jsonl_lines st \<and>
   downloaded_count (fst (item_except cfg st v)) = downloaded_count st"
  by (simp add: item_except_def Let_def)

lemma item_progress:
  "(jsonl_lines (fst (item cfg st v)) = jsonl_lines st \<and>
      downloaded_count (fst (item cfg st v)) = downloaded_count st) \<or>
   (\<exists>row. jsonl_lines (fst (item cfg st v)) = jsonl_lines st @ [row] \<and>
      downloaded_count (fst (item cfg st v)) = downloaded_count st + 1) \<or>
   (\<exists>row r. jsonl_lines (fst (item cfg st v)) = jsonl_lines st @ [row] \<and>
      downloaded_count (fst (item cfg st v)) = downloaded_count st \<and>
      fate v = JsonlFlushRaises r)"
proof (cases "item_try st v")
  case (Pair st1 f)
  with item_try_progress [of st v] item_except_keeps [of cfg st1 v] show ?thesis
    by (cases f) (simp_all add: item_def)
qed

lemma item_bounded:
  assumes "int (downloaded_count st) < COUNT cfg"
  shows "int (downloaded_count (fst (item cfg st v))) \<le> COUNT cfg"
  using item_progress [of cfg st v] assms by auto

text \<open>Once the target is reached, no video is processed and the loop is left.\<close>

lemma reached_page_items:
  "COUNT cfg \<le> int (downloaded_count st) \<Longrightarrow>
   page_items cfg st vs = (st, if vs = [] then Exhausted else Broke)"
  by (cases vs) simp_all

lemma reached_run_loop:
  "COUNT cfg \<le> int (downloaded_count st) \<Longrightarrow> run_loop cfg w st = (st, Continue)"
  by (simp add: run_loop_stop)

text \<open>The counter never decreases along the loop.\<close>

lemma stable_at_least: "stable (\<lambda>st. n \<le> downloaded_count st)"
  by (simp add: stable_def)

lemma item_try_at_least:
  "n \<le> downloaded_count st \<Longrightarrow> n \<le> downloaded_count (fst (item_try st v))"
  using item_try_progress [of st v] by auto

lemma run_loop_monotone: "downloaded_count st \<le> downloaded_count (fst (run_loop cfg w st))"
  by (rule stable_run_loop [where P = "\<lambda>s. downloaded_count st \<le> downloaded_count s",
        OF stable_at_least])
    (simp_all add: item_try_at_least)

text \<open>
  Claim C2, as stated, fails twice. With the target \<^verbatim>\<open>COUNT = -1\<close> the loop is never
  entered and the counter, 0, exceeds the target. And when the flush of a JSONL line
  raises (line 242), the line is in the file at the end of the run although the counter
  was not incremented for it: two lines appended, counter 1.
\<close>

theorem counter_differs_from_lines:
  "COUNT negative_target < int (downloaded_count (fst (trending_videos negative_target abc_world))) \<and>
   map fst (jsonl_lines (fst (trending_videos one_wanted flush_world))) = [''a'', ''b''] \<and>
   downloaded_count (fst (trending_videos one_wanted flush_world)) = 1 \<and>
   snd (trending_videos one_wanted flush_world) = Done"
  by (simp add: run_eval negative_target_def abc_world_def one_wanted_def flush_world_def
      ok_video_def failing_video_def page_of_def)

text \<open>
  Claim C2, amended. For a target that is not negative: at the end of the run the counter
  is at most the number of JSONL lines appended, and equal to it when no flush of a JSONL
  line raises during the run; it is at most the target; one video either appends nothing
  and leaves the counter, or appends one line and adds exactly one to the counter, or
  (only when the flush of its line raises) appends one line and leaves the counter; the
  counter never decreases along the loop and stays at most the target after every video
  processed; once the counter has reached the target, no further video of the page is
  processed (the page is left by \<^verbatim>\<open>break\<close>) and the loop ends.
\<close>

theorem progress_and_target_bound:
  assumes "0 \<le> COUNT cfg"
  shows "downloaded_count (fst (trending_videos cfg w))
           \<le> length (jsonl_lines (fst (trending_videos cfg w))) \<and>
         ((\<forall>n c. \<forall>v \<in> set (videos (trending w n c)). \<forall>r. fate v \<noteq> JsonlFlushRaises r) \<longrightarrow>
            downloaded_count (fst (trending_videos cfg w))
              = length (jsonl_lines (fst (trending_videos cfg w)))) \<and>
         int (downloaded_count (fst (trending_videos cfg w))) \<le> COUNT cfg \<and>
         ((jsonl_lines (fst (item cfg st v)) = jsonl_lines st \<and>
             downloaded_count (fst (item cfg st v)) = downloaded_count st) \<or>
          (\<exists>row. jsonl_lines (fst (item cfg st v)) = jsonl_lines st @ [row] \<and>
             downloaded_count (fst (item cfg st v)) = downloaded_count st + 1) \<or>
          (\<exists>row r. jsonl_lines (fst (item cfg st v)) = jsonl_lines st @ [row] \<and>
             downloaded_count (fst (item cfg st v)) = downloaded_count st \<and>
             fate v = JsonlFlushRaises r)) \<and>
         downloaded_count st \<le> downloaded_count (fst (run_loop cfg w st)) \<and>
         (int (downloaded_count st) < COUNT cfg \<longrightarrow>
            int (downloaded_count (fst (item cfg st v))) \<le> COUNT cfg) \<and>
         (COUNT cfg \<le> int (downloaded_count st) \<longrightarrow>
            page_items cfg st vs = (st, if vs = [] then Exhausted else Broke) \<and>
            run_loop cfg w st = (st, Continue))"
  using run_at_most_lines [of cfg w] run_counted [of w cfg] run_bounded [OF assms, of w]
    item_progress [of cfg st v] run_loop_monotone [of st cfg w] item_bounded [of st cfg v]
    reached_page_items [of cfg st vs] reached_run_loop [of cfg st w]
  by (simp add: counted_def bounded_def at_most_lines_def)

text \<open>
  With target 2 and pages of three fresh ids, none with a failing flush, the first two
  videos are captured and the third one meets the guard.
\<close>

theorem progress_and_target_bound_witness:
  "0 \<le> COUNT small_config \<and>
   (\<forall>n c. list_all (\<lambda>v. \<forall>r. fate v \<noteq> JsonlFlushRaises r)
      (videos (trending abc_world n c))) \<and>
   map fst (jsonl_lines (fst (trending_videos small_config abc_world))) = [''a'', ''b''] \<and>
   downloaded_count (fst (trending_videos small_config abc_world)) = 2 \<and>
   length (jsonl_lines (fst (trending_videos small_config abc_world))) = 2 \<and>
   int (downloaded_count (initial_state :: unit state)) < COUNT small_config \<and>
   int (downloaded_count (fst (item small_config initial_state (ok_video ''a''))))
     \<le> COUNT small_config \<and>
   COUNT small_config \<le> int (downloaded_count abc_final) \<and>
   page_items small_config abc_final [ok_video ''c''] = (abc_final, Broke) \<and>
   run_loop small_config abc_world abc_final = (abc_final, Continue)"
proof -
  have c: "0 \<le> COUNT small_config"
    by (simp add: small_config_def default_config_def)
  have q: "\<forall>n c. \<forall>v \<in> set (videos (trending abc_world n c)). \<forall>r. fate v \<noteq> JsonlFlushRaises r"
    by (simp add: abc_world_def page_of_def ok_video_def)
  have e: "map fst (jsonl_lines (fst (trending_videos small_config abc_world))) = [''a'', ''b'']"
    by (simp add: run_eval small_config_def abc_world_def ok_video_def page_of_def)
  have d: "downloaded_count (fst (trending_videos small_config abc_world)) = 2"
    by (simp add: run_eval small_config_def abc_world_def ok_video_def page_of_def)
  have i: "int (downloaded_count (initial_state :: unit state)) < COUNT small_config"
    by (simp add: initial_state_def small_config_def default_config_def)
  have r: "COUNT small_config \<le> int (downloaded_count abc_final)"
    using d by (simp add: abc_final_def small_config_def default_config_def)
  from progress_and_target_bound [OF c, of abc_world initial_state "ok_video ''a''" "[]"]
    progress_and_target_bound [OF c, of abc_world abc_final "ok_video ''c''" "[ok_video ''c'']"]
    c q e d i r
  show ?thesis by (simp add: list_all_iff)
qed

section \<open>Identifiers seen\<close>

lemma item_except_seen: "seen_ids (fst (item_except cfg st v)) = seen_ids st"
  by (simp add: item_except_def Let_def)

lemma item_try_seen:
  "seen_ids (fst (item_try st v)) =
     (case vid v of Id s \<Rightarrow> if s = [] then seen_ids st else insert s (seen_ids st)
      | _ \<Rightarrow> seen_ids st)"
  by (auto simp add: item_try_def after_lookup_def resolve_music_def
      split: id_read.split fate.split option.split)

lemma item_seen:
  "seen_ids (fst (item cfg st v)) =
     (case vid v of Id s \<Rightarrow> if s = [] then seen_ids st else insert s (seen_ids st)
      | _ \<Rightarrow> seen_ids st)"
proof (cases "item_try st v")
  case (Pair st1 f)
  with item_try_seen [of st v] item_except_seen [of cfg st1 v] show ?thesis
    by (cases f) (simp_all add: item_def)
qed

lemma item_marks_seen: "vid v = Id s \<Longrightarrow> s \<noteq> [] \<Longrightarrow> s \<in> seen_ids (fst (item cfg st v))"
  by (simp add: item_seen)

lemma item_captured:
  assumes "vid v = Id s" and "s \<noteq> []" and "s \<notin> seen_ids st" and "fate v = Captured r"
  shows "downloaded_count (fst (item cfg st v)) = downloaded_count st + 1 \<and>
         consecutive_errors (fst (item cfg st v)) = 0 \<and>
         map fst (jsonl_lines (fst (item cfg st v))) = map fst (jsonl_lines st) @ [s] \<and>
         snd (item cfg st v) = Continue"
  using assms
  by (simp add: item_def item_try_def after_lookup_def resolve_music_def split: option.split)

lemma item_not_captured:
  assumes "\<forall>r. fate v \<noteq> Captured r"
  shows "downloaded_count (fst (item cfg st v)) = downloaded_count st"
proof (cases "item_try st v")
  case (Pair st1 f)
  from assms have "downloaded_count (fst (item_try st v)) = downloaded_count st"
    by (simp add: item_try_def after_lookup_def resolve_music_def
        split: id_read.split fate.split option.split)
  with Pair item_except_keeps [of cfg st1 v] show ?thesis
    by (cases f) (simp_all add: item_def)
qed

text \<open>Nothing removes an id from \<^verbatim>\<open>seen_ids\<close>: not a handler, not a page, not the loop.\<close>

lemma stable_seen: "stable (\<lambda>st. A \<subseteq> seen_ids st)"
  by (simp add: stable_def)

lemma item_try_keeps_seen: "A \<subseteq> seen_ids st \<Longrightarrow> A \<subseteq> seen_ids (fst (item_try st v))"
  by (auto simp add: item_try_seen split: id_read.split)

lemma item_keeps_seen: "seen_ids st \<subseteq> seen_ids (fst (item cfg st v))"
  by (auto simp add: item_seen split: id_read.split)

lemma page_guarded_keeps_seen: "seen_ids st \<subseteq> seen_ids (fst (page_guarded cfg st pg))"
  by (rule stable_page_guarded [where P = "\<lambda>s. seen_ids st \<subseteq> seen_ids s", OF stable_seen])
    (simp_all add: item_try_keeps_seen)

lemma iteration_keeps_seen: "seen_ids st \<subseteq> seen_ids (fst (iteration cfg w st))"
  by (rule stable_iteration [where P = "\<lambda>s. seen_ids st \<subseteq> seen_ids s", OF stable_seen])
    (simp_all add: item_try_keeps_seen)

lemma run_loop_keeps_seen: "seen_ids st \<subseteq> seen_ids (fst (run_loop cfg w st))"
  by (rule stable_run_loop [where P = "\<lambda>s. seen_ids st \<subseteq> seen_ids s", OF stable_seen])
    (simp_all add: item_try_keeps_seen)

lemma skipped_later:
  assumes "vid v = Id s" and "s \<noteq> []" and "vid v' = Id s"
  shows "item cfg' (fst (run_loop cfg w (fst (item cfg st v)))) v' =
           (fst (run_loop cfg w (fst (item cfg st v))), Continue)"
proof -
  from assms(1,2) have "s \<in> seen_ids (fst (item cfg st v))" by (rule item_marks_seen)
  with run_loop_keeps_seen [of "fst (item cfg st v)" cfg w]
  have "s \<in> seen_ids (fst (run_loop cfg w (fst (item cfg st v))))" by blast
  with assms(3) show ?thesis by (rule seen_skipped)
qed

text \<open>
  Claim C3, as stated, fails: a video whose detail fetch raises has its id in \<^verbatim>\<open>seen_ids\<close>
  afterwards (line 165 runs before the fetch), and when the same id is yielded again on
  the later pages, without any failure, it is skipped: the run ends at the ceiling with
  nothing captured.
\<close>

theorem failed_item_stays_seen:
  "''a'' \<in> seen_ids (fst (item default_config initial_state (failing_video ''a'' DetailRaises))) \<and>
   consecutive_errors (fst (item default_config initial_state (failing_video ''a'' DetailRaises))) = 1 \<and>
   jsonl_lines (fst (trending_videos retry_config retry_world)) = [] \<and>
   downloaded_count (fst (trending_videos retry_config retry_world)) = 0 \<and>
   loops (fst (trending_videos retry_config retry_world)) = 3"
  by (simp add: run_eval retry_config_def retry_world_def ok_video_def failing_video_def page_of_def)

text \<open>
  Claim C3, amended. The id of a video is added to \<^verbatim>\<open>seen_ids\<close> as soon as the video
  passes the check of line 163 (a non-empty id, not seen before), whatever happens to the
  video afterwards, and nothing else changes \<^verbatim>\<open>seen_ids\<close>: no handler, page or turn of the
  loop removes an id. A captured video adds one to the counter, zeroes the error counter
  and appends its line; a video that is not captured leaves the counter as it was. A video
  whose id is in \<^verbatim>\<open>seen_ids\<close> is skipped with the state unchanged; so a video with a
  non-empty id, whether it was captured or failed, is skipped whenever its id is yielded
  again, on the same page or after any number of further turns of the loop.
\<close>

theorem seen_at_dedup_check:
  "seen_ids (fst (item cfg st v)) =
     (case vid v of Id s \<Rightarrow> if s = [] then seen_ids st else insert s (seen_ids st)
      | _ \<Rightarrow> seen_ids st) \<and>
   (vid v = Id s \<and> s \<noteq> [] \<and> s \<notin> seen_ids st \<and> fate v = Captured r \<longrightarrow>
      downloaded_count (fst (item cfg st v)) = downloaded_count st + 1 \<and>
      consecutive_errors (fst (item cfg st v)) = 0 \<and>
      map fst (jsonl_lines (fst (item cfg st v))) = map fst (jsonl_lines st) @ [s] \<and>
      snd (item cfg st v) = Continue) \<and>
   ((\<forall>r. fate v \<noteq> Captured r) \<longrightarrow>
      downloaded_count (fst (item cfg st v)) = downloaded_count st) \<and>
   (vid v = Id s \<and> s \<in> seen_ids st \<longrightarrow> item cfg st v = (st, Continue)) \<and>
   seen_ids st \<subseteq> seen_ids (fst (item cfg st v)) \<and>
   seen_ids st \<subseteq> seen_ids (fst (page_guarded cfg st pg)) \<and>
   seen_ids st \<subseteq> seen_ids (fst (iteration cfg w st)) \<and>
   seen_ids st \<subseteq> seen_ids (fst (run_loop cfg w st)) \<and>
   (vid v = Id s \<and> s \<noteq> [] \<and> vid v' = Id s \<longrightarrow>
      s \<in> seen_ids (fst (item cfg st v)) \<and>
      item cfg (fst (run_loop cfg w (fst (item cfg st v)))) v' =
        (fst (run_loop cfg w (fst (item cfg st v))), Continue))"
  using item_seen [of cfg st v]
    item_captured [where v = v and s = s and st = st and r = r and cfg = cfg]
    item_not_captured [where v = v and cfg = cfg and st = st]
    seen_skipped [where v = v and s = s and st = st and cfg = cfg]
    item_keeps_seen [of st cfg v] page_guarded_keeps_seen [of st cfg pg]
    iteration_keeps_seen [of st cfg w] run_loop_keeps_seen [of st cfg w]
    item_marks_seen [where v = v and s = s and cfg = cfg and st = st]
    skipped_later [where v = v and s = s and v' = v' and cfg = cfg and cfg' = cfg and w = w
      and st = st]
  by blast

text \<open>
  On the first page of the script above the video \<^verbatim>\<open>a\<close> fails; whatever the loop does
  afterwards, the same id is skipped. A captured video, for comparison.
\<close>

theorem seen_at_dedup_check_witness:
  "vid (ok_video ''a'') = Id ''a'' \<and> ''a'' \<noteq> [] \<and>
   ''a'' \<notin> seen_ids (initial_state :: unit state) \<and> fate (ok_video ''a'') = Captured () \<and>
   seen_ids (fst (item default_config initial_state (ok_video ''a''))) = {''a''} \<and>
   downloaded_count (fst (item default_config initial_state (ok_video ''a''))) = 1 \<and>
   consecutive_errors (fst (item default_config initial_state (ok_video ''a''))) = 0 \<and>
   map fst (jsonl_lines (fst (item default_config initial_state (ok_video ''a'')))) = [''a''] \<and>
   fate (failing_video ''a'' DetailRaises) = DetailRaises \<and>
   vid (failing_video ''a'' DetailRaises) = Id ''a'' \<and>
   seen_ids (fst (item retry_config initial_state (failing_video ''a'' DetailRaises))) = {''a''} \<and>
   downloaded_count (fst (item retry_config initial_state (failing_video ''a'' DetailRaises))) = 0 \<and>
   item retry_config
     (fst (run_loop retry_config retry_world
            (fst (item retry_config initial_state (failing_video ''a'' DetailRaises)))))
     (ok_video ''a'') =
   (fst (run_loop retry_config retry_world
          (fst (item retry_config initial_state (failing_video ''a'' DetailRaises)))), Continue) \<and>
   item default_config (fst (item default_config initial_state (ok_video ''a''))) (ok_video ''a'')
     = (fst (item default_config initial_state (ok_video ''a'')), Continue)"
proof -
  have a: "vid (ok_video ''a'') = Id ''a''" "fate (ok_video ''a'') = Captured ()"
    "vid (failing_video ''a'' DetailRaises) = Id ''a''"
    "fate (failing_video ''a'' DetailRaises) = DetailRaises"
    "seen_ids (initial_state :: unit state) = {}"
    "downloaded_count (initial_state :: unit state) = 0"
    "jsonl_lines (initial_state :: unit state) = []"
    by (simp_all add: ok_video_def failing_video_def initial_state_def)
  from seen_at_dedup_check [where cfg = default_config and st = initial_state
      and v = "ok_video ''a''" and s = "''a''" and r = "()" and v' = "ok_video ''a''"
      and w = retry_world and pg = "page_of []"]
  have b: "seen_ids (fst (item default_config initial_state (ok_video ''a''))) = {''a''}"
    "downloaded_count (fst (item default_config initial_state (ok_video ''a''))) = 1"
    "consecutive_errors (fst (item default_config initial_state (ok_video ''a''))) = 0"
    "map fst (jsonl_lines (fst (item default_config initial_state (ok_video ''a'')))) = [''a'']"
    using a by simp_all
  from seen_at_dedup_check [where cfg = default_config
      and st = "fst (item default_config initial_state (ok_video ''a''))"
      and v = "ok_video ''a''" and s = "''a''" and r = "()" and v' = "ok_video ''a''"
      and w = retry_world and pg = "page_of []"] b(1) a(1)
  have c: "item default_config (fst (item default_config initial_state (ok_video ''a'')))
      (ok_video ''a'') = (fst (item default_config initial_state (ok_video ''a'')), Continue)"
    by simp
  from seen_at_dedup_check [where cfg = retry_config and st = initial_state
      and v = "failing_video ''a'' DetailRaises" and s = "''a''" and r = "()"
      and v' = "ok_video ''a''" and w = retry_world and pg = "page_of []"] a
  have d: "seen_ids (fst (item retry_config initial_state (failing_video ''a'' DetailRaises)))
        = {''a''}"
    "downloaded_count (fst (item retry_config initial_state (failing_video ''a'' DetailRaises)))
        = 0"
    "item retry_config
       (fst (run_loop retry_config retry_world
              (fst (item retry_config initial_state (failing_video ''a'' DetailRaises)))))
       (ok_video ''a'') =
     (fst (run_loop retry_config retry_world
            (fst (item retry_config initial_state (failing_video ''a'' DetailRaises)))), Continue)"
    by simp_all
  from a b c d show ?thesis by simp
qed

section \<open>Item-level failures\<close>















section \<open>What leaves the loop\<close>








section \<open>Backoff\<close>

lemma empty_page_raises: "videos pg = [] \<Longrightarrow> page_try cfg st pg = (st, Raise)"
  by (simp add: page_try_def)

lemma empty_page_handled: "videos pg = [] \<Longrightarrow> page_guarded cfg st pg = page_except cfg st pg"
  by (simp add: page_guarded_def empty_page_raises)

lemma page_except_sleep:
  "backoffs (fst (page_except cfg st pg)) =
     backoffs st @ [expo cfg (consecutive_errors st + 1) + uniform 0 (JITTER_SEC cfg) (jitter pg)]"
  by (simp add: page_except_def Let_def)

lemma page_except_counter:
  "consecutive_errors (fst (page_except cfg st pg)) =
     (if RESET_SESSION_AFTER_ERRORS cfg \<le> int (consecutive_errors st) + 1 \<and> page_session_ok pg
      then 0 else consecutive_errors st + 1)"
  by (simp add: page_except_def Let_def)

lemma uniform_bounds:
  assumes "0 \<le> u" and "u \<le> 1" and "0 \<le> j"
  shows "0 \<le> uniform 0 j u \<and> uniform 0 j u \<le> j"
proof -
  from assms have "j * u \<le> j * 1" by (intro mult_left_mono) simp_all
  with assms show ?thesis by (simp add: uniform_def)
qed

lemma expo_mono:
  assumes "0 \<le> BACKOFF_BASE_SEC cfg" and "m \<le> n"
  shows "expo cfg m \<le> expo cfg n"
proof -
  from assms(2) have "(2::real) ^ min m 6 \<le> 2 ^ min n 6"
    by (intro power_increasing) simp_all
  with assms(1) have "BACKOFF_BASE_SEC cfg * 2 ^ min m 6 \<le> BACKOFF_BASE_SEC cfg * 2 ^ min n 6"
    by (rule mult_left_mono [rotated])
  then show ?thesis by (simp add: expo_def min.coboundedI2)
qed

lemma expo_max: "expo cfg n \<le> BACKOFF_MAX_SEC cfg"
  by (simp add: expo_def)

lemma two_empty_pages:
  assumes "videos pg = []" and "videos pg' = []"
    and "int (consecutive_errors st) + 1 < RESET_SESSION_AFTER_ERRORS cfg"
  shows "backoffs (fst (page_guarded cfg (fst (page_guarded cfg st pg)) pg')) =
     backoffs st @
       [expo cfg (consecutive_errors st + 1) + uniform 0 (JITTER_SEC cfg) (jitter pg),
        expo cfg (consecutive_errors st + 2) + uniform 0 (JITTER_SEC cfg) (jitter pg')]"
  using assms by (simp add: empty_page_handled page_except_sleep page_except_counter)

text \<open>
  Claim C6, as stated, fails in its last part: the page handler zeroes the error counter
  each time it recreates the session (line 278). With a content source that yields only
  empty pages, with no jitter, the sleeps of four consecutive page failures are 4, 8, 16
  and 4 seconds: the fourth is shorter than the third by more than the jitter bound,
  and no video was captured in between.
\<close>

theorem backoff_restarts:
  "backoffs (fst (trending_videos four_pages throttled_world)) = [4, 8, 16, 4] \<and>
   \<not> sorted (backoffs (fst (trending_videos four_pages throttled_world))) \<and>
   JITTER_SEC four_pages < 16 - 4 \<and>
   downloaded_count (fst (trending_videos four_pages throttled_world)) = 0 \<and>
   jsonl_lines (fst (trending_videos four_pages throttled_world)) = [] \<and>
   sessions (fst (trending_videos four_pages throttled_world)) = 2 \<and>
   snd (trending_videos four_pages throttled_world) = Done"
proof -
  have b: "backoffs (fst (trending_videos four_pages throttled_world)) = [4, 8, 16, 4]"
    by (simp add: run_eval four_pages_def throttled_world_def empty_page_def)
  have r: "downloaded_count (fst (trending_videos four_pages throttled_world)) = 0"
    "jsonl_lines (fst (trending_videos four_pages throttled_world)) = []"
    "sessions (fst (trending_videos four_pages throttled_world)) = 2"
    "snd (trending_videos four_pages throttled_world) = Done"
    by (simp_all add: run_eval four_pages_def throttled_world_def empty_page_def)
  have j: "JITTER_SEC four_pages < 16 - 4" by (simp add: four_pages_def default_config_def)
  from b r j show ?thesis by simp
qed

text \<open>
  Claim C6, amended. A page that yields no video is a page failure: the page handler
  runs. Every page failure sleeps for
  \<open>min BACKOFF_MAX (BACKOFF_BASE * 2 ^ min n 6)\<close> plus the jitter, where \<open>n\<close> is the error
  counter after the increment of line 269; the jitter lies between 0 and \<open>JITTER\<close> when
  \<open>JITTER\<close> is not negative. For a base that is not negative the first summand is
  non-decreasing in the counter and at most \<open>BACKOFF_MAX\<close>; so of two empty pages in
  succession, the first failing below the session threshold, the second sleeps at least
  as long as the first in that summand. A page failure at the threshold zeroes the counter
  once the session is recreated, and the sequence of sleeps starts again from its first
  value.
\<close>

theorem page_failure_backoff:
  "(videos pg = [] \<longrightarrow>
      page_try cfg st pg = (st, Raise) \<and> page_guarded cfg st pg = page_except cfg st pg) \<and>
   backoffs (fst (page_except cfg st pg)) =
     backoffs st @
       [min (BACKOFF_MAX_SEC cfg) (BACKOFF_BASE_SEC cfg * 2 ^ min (consecutive_errors st + 1) 6)
        + uniform 0 (JITTER_SEC cfg) (jitter pg)] \<and>
   (0 \<le> jitter pg \<and> jitter pg \<le> 1 \<and> 0 \<le> JITTER_SEC cfg \<longrightarrow>
      0 \<le> uniform 0 (JITTER_SEC cfg) (jitter pg) \<and>
      uniform 0 (JITTER_SEC cfg) (jitter pg) \<le> JITTER_SEC cfg) \<and>
   (0 \<le> BACKOFF_BASE_SEC cfg \<and> m \<le> n \<longrightarrow> expo cfg m \<le> expo cfg n) \<and>
   expo cfg n \<le> BACKOFF_MAX_SEC cfg \<and>
   (videos pg = [] \<and> videos pg' = [] \<and> 0 \<le> BACKOFF_BASE_SEC cfg \<and>
    int (consecutive_errors st) + 1 < RESET_SESSION_AFTER_ERRORS cfg \<longrightarrow>
      backoffs (fst (page_guarded cfg (fst (page_guarded cfg st pg)) pg')) =
        backoffs st @
          [expo cfg (consecutive_errors st + 1) + uniform 0 (JITTER_SEC cfg) (jitter pg),
           expo cfg (consecutive_errors st + 2) + uniform 0 (JITTER_SEC cfg) (jitter pg')] \<and>
      expo cfg (consecutive_errors st + 1) \<le> expo cfg (consecutive_errors st + 2)) \<and>
   (RESET_SESSION_AFTER_ERRORS cfg \<le> int (consecutive_errors st) + 1 \<and> page_session_ok pg \<longrightarrow>
      consecutive_errors (fst (page_except cfg st pg)) = 0 \<and>
      backoffs (fst (page_except cfg (fst (page_except cfg st pg)) pg')) =
        backoffs st @
          [expo cfg (consecutive_errors st + 1) + uniform 0 (JITTER_SEC cfg) (jitter pg),
           expo cfg 1 + uniform 0 (JITTER_SEC cfg) (jitter pg')])"
proof -
  have a: "videos pg = [] \<longrightarrow>
      page_try cfg st pg = (st, Raise) \<and> page_guarded cfg st pg = page_except cfg st pg"
    by (simp add: empty_page_raises empty_page_handled)
  have b: "backoffs (fst (page_except cfg st pg)) =
     backoffs st @
       [min (BACKOFF_MAX_SEC cfg) (BACKOFF_BASE_SEC cfg * 2 ^ min (consecutive_errors st + 1) 6)
        + uniform 0 (JITTER_SEC cfg) (jitter pg)]"
    using page_except_sleep [where cfg = cfg and st = st and pg = pg] by (simp add: expo_def)
  have c: "0 \<le> jitter pg \<and> jitter pg \<le> 1 \<and> 0 \<le> JITTER_SEC cfg \<longrightarrow>
      0 \<le> uniform 0 (JITTER_SEC cfg) (jitter pg) \<and>
      uniform 0 (JITTER_SEC cfg) (jitter pg) \<le> JITTER_SEC cfg"
    using uniform_bounds [where u = "jitter pg" and j = "JITTER_SEC cfg"] by blast
  have d: "0 \<le> BACKOFF_BASE_SEC cfg \<and> m \<le> n \<longrightarrow> expo cfg m \<le> expo cfg n"
    using expo_mono [where cfg = cfg and m = m and n = n] by blast
  have e: "expo cfg n \<le> BACKOFF_MAX_SEC cfg" by (rule expo_max)
  have f: "videos pg = [] \<and> videos pg' = [] \<and> 0 \<le> BACKOFF_BASE_SEC cfg \<and>
    int (consecutive_errors st) + 1 < RESET_SESSION_AFTER_ERRORS cfg \<longrightarrow>
      backoffs (fst (page_guarded cfg (fst (page_guarded cfg st pg)) pg')) =
        backoffs st @
          [expo cfg (consecutive_errors st + 1) + uniform 0 (JITTER_SEC cfg) (jitter pg),
           expo cfg (consecutive_errors st + 2) + uniform 0 (JITTER_SEC cfg) (jitter pg')] \<and>
      expo cfg (consecutive_errors st + 1) \<le> expo cfg (consecutive_errors st + 2)"
    using two_empty_pages [where pg = pg and pg' = pg' and st = st and cfg = cfg]
      expo_mono [where cfg = cfg and m = "consecutive_errors st + 1"
        and n = "consecutive_errors st + 2"]
    by simp
  have g: "RESET_SESSION_AFTER_ERRORS cfg \<le> int (consecutive_errors st) + 1 \<and> page_session_ok pg \<longrightarrow>
      consecutive_errors (fst (page_except cfg st pg)) = 0 \<and>
      backoffs (fst (page_except cfg (fst (page_except cfg st pg)) pg')) =
        backoffs st @
          [expo cfg (consecutive_errors st + 1) + uniform 0 (JITTER_SEC cfg) (jitter pg),
           expo cfg 1 + uniform 0 (JITTER_SEC cfg) (jitter pg')]"
    by (simp add: page_except_sleep page_except_counter)
  from a b c d e f g show ?thesis by (intro conjI)
qed

text \<open>
  Two empty pages from the initial state, then the page failure that reaches the
  threshold, under the default configuration.
\<close>

theorem page_failure_backoff_witness:
  "videos (empty_page True) = [] \<and>
   page_guarded default_config initial_state (empty_page True)
     = page_except default_config initial_state (empty_page True) \<and>
   0 \<le> jitter (empty_page True) \<and> jitter (empty_page True) \<le> 1 \<and>
   0 \<le> JITTER_SEC default_config \<and>
   uniform 0 (JITTER_SEC default_config) (jitter (empty_page True)) \<le> JITTER_SEC default_config \<and>
   0 \<le> BACKOFF_BASE_SEC default_config \<and>
   expo default_config 1 \<le> expo default_config 2 \<and>
   int (consecutive_errors (initial_state :: unit state)) + 1
     < RESET_SESSION_AFTER_ERRORS default_config \<and>
   backoffs (fst (page_guarded default_config
       (fst (page_guarded default_config initial_state (empty_page True))) (empty_page True)))
     = [4, 8] \<and>
   RESET_SESSION_AFTER_ERRORS default_config \<le> int (consecutive_errors two_errors) + 1 \<and>
   page_session_ok (empty_page True) \<and>
   consecutive_errors (fst (page_except default_config two_errors (empty_page True))) = 0 \<and>
   backoffs (fst (page_except default_config
       (fst (page_except default_config two_errors (empty_page True))) (empty_page True)))
     = [16, 4]"
proof -
  have a: "videos (empty_page True) = []" "jitter (empty_page True) = 0"
    "page_session_ok (empty_page True)"
    "JITTER_SEC default_config = 8 / 10" "BACKOFF_BASE_SEC default_config = 2"
    "RESET_SESSION_AFTER_ERRORS default_config = 3"
    "consecutive_errors (initial_state :: unit state) = 0"
    "backoffs (initial_state :: unit state) = []"
    "consecutive_errors two_errors = 2" "backoffs two_errors = []"
    by (simp_all add: empty_page_def default_config_def initial_state_def two_errors_def)
  have x: "expo default_config (Suc 0) = 4" "expo default_config (Suc (Suc 0)) = 8"
    "expo default_config 1 = 4" "expo default_config 2 = 8" "expo default_config 3 = 16"
    by (simp_all add: default_config_def expo_def)
  note t1 = page_failure_backoff [where pg = "empty_page True" and pg' = "empty_page True"
      and cfg = default_config and st = initial_state and m = 1 and n = 2]
  note t2 = page_failure_backoff [where pg = "empty_page True" and pg' = "empty_page True"
      and cfg = default_config and st = two_errors and m = 1 and n = 2]
  from t1 have c1: "page_guarded default_config initial_state (empty_page True)
     = page_except default_config initial_state (empty_page True)"
    by (simp add: a)
  from t1 have c2: "uniform 0 (JITTER_SEC default_config) (jitter (empty_page True))
      \<le> JITTER_SEC default_config"
    by (simp add: a)
  from t1 have c3: "expo default_config 1 \<le> expo default_config 2"
    by (simp add: a)
  from t1 have c4: "backoffs (fst (page_guarded default_config
       (fst (page_guarded default_config initial_state (empty_page True))) (empty_page True)))
     = [4, 8]"
    by (simp add: a x uniform_def c1)
  from t2 have c5:
    "consecutive_errors (fst (page_except default_config two_errors (empty_page True))) = 0"
    "backoffs (fst (page_except default_config
       (fst (page_except default_config two_errors (empty_page True))) (empty_page True)))
     = [16, 4]"
    by (simp_all add: a x uniform_def)
  show ?thesis
    by (intro conjI c1 c2 c3 c4 c5) (simp_all add: a)
qed

section \<open>The popular sound\<close>










section \<open>The hashtags\<close>

lemma uniq_subseq: "subseq (uniq_tags seen xs) xs"
  by (induction xs arbitrary: seen) (auto intro: list_emb_Cons)

lemma uniq_lowers: "py_lower ` set (uniq_tags seen xs) = py_lower ` set xs - seen"
  by (induction xs arbitrary: seen) auto

lemma uniq_distinct: "distinct (map py_lower (uniq_tags seen xs))"
proof (induction xs arbitrary: seen)
  case Nil
  show ?case by simp
next
  case (Cons t ts)
  have "py_lower t \<notin> py_lower ` set (uniq_tags (insert (py_lower t) seen) ts)"
    by (simp add: uniq_lowers)
  with Cons show ?case by simp
qed

lemma uniq_first:
  "r \<in> set (uniq_tags seen xs) \<Longrightarrow> find (\<lambda>t. py_lower t = py_lower r) xs = Some r"
proof (induction xs arbitrary: seen)
  case Nil
  then show ?case by simp
next
  case (Cons t ts)
  from Cons.prems have "py_lower r \<in> py_lower ` set (uniq_tags seen (t # ts))" by (rule imageI)
  then have n: "py_lower r \<notin> seen" by (simp only: uniq_lowers) simp
  show ?case
  proof (cases "py_lower t \<in> seen")
    case True
    with n have "py_lower t \<noteq> py_lower r" by auto
    moreover from True Cons.prems have "r \<in> set (uniq_tags seen ts)" by simp
    ultimately show ?thesis using Cons.IH by simp
  next
    case False
    show ?thesis
    proof (cases "r = t")
      case True
      then show ?thesis by simp
    next
      case neq: False
      with False Cons.prems have m: "r \<in> set (uniq_tags (insert (py_lower t) seen) ts)" by simp
      then have "py_lower r \<in> py_lower ` set (uniq_tags (insert (py_lower t) seen) ts)"
        by (rule imageI)
      then have "py_lower t \<noteq> py_lower r" by (simp only: uniq_lowers) auto
      with m Cons.IH show ?thesis by simp
    qed
  qed
qed

lemma split_from_word:
  "\<forall>c\<in>set s. \<not> py_isspace c \<Longrightarrow> split_from w s = (if w @ s = [] then [] else [w @ s])"
  by (induction s arbitrary: w) simp_all

lemma split_from_space:
  "py_isspace c \<Longrightarrow> split_from w (a @ c # b) = split_from w a @ split_from [] b"
  by (induction a arbitrary: w) simp_all

lemma structured_tags_value:
  "(structured_tags fmt xs = Inr tags) =
     ((\<forall>x\<in>set xs. is_dict x \<and>
          (truthy (dict_get (items_of x) ''hashtagName'') \<longrightarrow>
             (\<exists>t. hashtag fmt (dict_get (items_of x) ''hashtagName'') = Inr t))) \<and>
      tags = map (\<lambda>x. projr (hashtag fmt (dict_get (items_of x) ''hashtagName'')))
               (filter (\<lambda>x. truthy (dict_get (items_of x) ''hashtagName'')) xs))"
proof (induction xs arbitrary: tags)
  case Nil
  show ?case by auto
next
  case (Cons x xs)
  show ?case
  proof (cases x)
    case (PDict kvs)
    show ?thesis
    proof (cases "truthy (dict_get kvs ''hashtagName'')")
      case False
      with PDict Cons.IH [of tags] show ?thesis by simp
    next
      case True
      show ?thesis
      proof (cases "hashtag fmt (dict_get kvs ''hashtagName'')")
        case (Inl e)
        with PDict True show ?thesis by simp
      next
        case (Inr t)
        show ?thesis
        proof (cases "structured_tags fmt xs")
          case (Inl e)
          with Cons.IH [of "map (\<lambda>x. projr (hashtag fmt (dict_get (items_of x) ''hashtagName'')))
               (filter (\<lambda>x. truthy (dict_get (items_of x) ''hashtagName'')) xs)"]
          have "\<not> (\<forall>x\<in>set xs. is_dict x \<and>
              (truthy (dict_get (items_of x) ''hashtagName'') \<longrightarrow>
                 (\<exists>t. hashtag fmt (dict_get (items_of x) ''hashtagName'') = Inr t)))"
            by simp
          with PDict True Inr Inl show ?thesis by auto
        next
          case ts: (Inr ts)
          with Cons.IH [of ts] PDict True Inr show ?thesis by auto
        qed
      qed
    qed
  qed simp_all
qed

lemma iterate_structured:
  assumes "iterate v = Inr xs" and "structured_tags fmt xs = Inr tags"
  shows "v = PList xs \<or> \<not> truthy v"
proof (cases v)
  case (PStr s)
  with assms show ?thesis by (cases s) auto
next
  case (PDict kvs)
  with assms show ?thesis by (cases kvs) auto
qed (use assms in simp_all)

lemma annotations_list:
  assumes "iterate (py_or x (PList [])) = Inr xs" and "structured_tags fmt xs = Inr tags"
  shows "py_or x (PList []) = PList xs"
proof (cases "truthy x")
  case True
  with assms iterate_structured [of "py_or x (PList [])" xs fmt tags] show ?thesis
    by (simp add: py_or_def)
next
  case False
  with assms show ?thesis by (simp add: py_or_def)
qed

lemma caption_tags_value:
  "(caption_tags (PDict kvs) = Inr ws) =
     (\<exists>s. py_or (dict_get kvs ''desc'') (PStr []) = PStr s \<and>
          ws = filter startswith_hash (py_split s))"
  by (cases "py_or (dict_get kvs ''desc'') (PStr [])") (auto simp add: caption_tags_def)

lemma extract_hashtags_value:
  "(extract_hashtags fmt data = Inr res) =
     (\<exists>kvs xs tags.
        data = PDict kvs \<and> py_or (dict_get kvs ''textExtra'') (PList []) = PList xs \<and>
        structured_tags fmt xs = Inr tags \<and>
        (if tags \<noteq> [] then res = uniq_tags {} tags
         else \<exists>s. py_or (dict_get kvs ''desc'') (PStr []) = PStr s \<and>
                  res = uniq_tags {} (filter startswith_hash (py_split s))))"
proof (cases data)
  case (PDict kvs)
  show ?thesis
  proof
    assume r: "extract_hashtags fmt data = Inr res"
    from r PDict obtain xs where
      i: "iterate (py_or (dict_get kvs ''textExtra'') (PList [])) = Inr xs"
      by (cases "iterate (py_or (dict_get kvs ''textExtra'') (PList []))")
        (simp_all add: extract_hashtags_def)
    from r PDict i obtain tags where t: "structured_tags fmt xs = Inr tags"
      by (cases "structured_tags fmt xs") (simp_all add: extract_hashtags_def)
    from i t have l: "py_or (dict_get kvs ''textExtra'') (PList []) = PList xs"
      by (rule annotations_list)
    show "\<exists>kvs xs tags.
        data = PDict kvs \<and> py_or (dict_get kvs ''textExtra'') (PList []) = PList xs \<and>
        structured_tags fmt xs = Inr tags \<and>
        (if tags \<noteq> [] then res = uniq_tags {} tags
         else \<exists>s. py_or (dict_get kvs ''desc'') (PStr []) = PStr s \<and>
                  res = uniq_tags {} (filter startswith_hash (py_split s)))"
    proof (cases "tags = []")
      case False
      with r PDict i t l show ?thesis by (auto simp add: extract_hashtags_def)
    next
      case True
      with r PDict i t obtain ws where
        c: "caption_tags (PDict kvs) = Inr ws" and w: "res = uniq_tags {} ws"
        by (cases "caption_tags (PDict kvs)") (auto simp add: extract_hashtags_def)
      from c obtain s where "py_or (dict_get kvs ''desc'') (PStr []) = PStr s"
        and "ws = filter startswith_hash (py_split s)"
        by (auto simp add: caption_tags_value)
      with PDict l t True w show ?thesis by auto
    qed
  next
    assume "\<exists>kvs xs tags.
        data = PDict kvs \<and> py_or (dict_get kvs ''textExtra'') (PList []) = PList xs \<and>
        structured_tags fmt xs = Inr tags \<and>
        (if tags \<noteq> [] then res = uniq_tags {} tags
         else \<exists>s. py_or (dict_get kvs ''desc'') (PStr []) = PStr s \<and>
                  res = uniq_tags {} (filter startswith_hash (py_split s)))"
    then obtain kvs' xs tags where d: "data = PDict kvs'"
      and l: "py_or (dict_get kvs' ''textExtra'') (PList []) = PList xs"
      and t: "structured_tags fmt xs = Inr tags"
      and c: "if tags \<noteq> [] then res = uniq_tags {} tags
         else \<exists>s. py_or (dict_get kvs' ''desc'') (PStr []) = PStr s \<and>
                  res = uniq_tags {} (filter startswith_hash (py_split s))"
      by blast
    show "extract_hashtags fmt data = Inr res"
    proof (cases "tags = []")
      case False
      with d l t c show ?thesis by (simp add: extract_hashtags_def)
    next
      case True
      with c obtain s where "py_or (dict_get kvs' ''desc'') (PStr []) = PStr s"
        and w: "res = uniq_tags {} (filter startswith_hash (py_split s))"
        by auto
      then have "caption_tags (PDict kvs') = Inr (filter startswith_hash (py_split s))"
        by (simp add: caption_tags_value)
      with d l t True w show ?thesis by (simp add: extract_hashtags_def)
    qed
  qed
qed (simp_all add: extract_hashtags_def)

lemmas hashtag_eval = extract_hashtags_def caption_tags_def py_or_def dict_get_def py_split_def
  py_isspace_def py_lower_def lower_char_def char_of_def bit_Suc_0_iff no_attribute_def
  not_iterable_def

lemma unrendered_name:
  "dmax \<noteq> 0 \<Longrightarrow>
   extract_hashtags (int_format dmax)
     (PDict [(''textExtra'', PList [PDict [(''hashtagName'', PInt (10 ^ dmax))]]),
             (''desc'', PStr ''#c'')])
   = Inl (digit_limit dmax)"
  by (simp add: extract_hashtags_def py_or_def dict_get_def int_format_def str_int_def power_abs)

text \<open>
  Claim C8, as stated, fails on the records for which the extraction raises instead of
  returning tags: a list of annotations with a tag and, after it, an entry that is no
  mapping; a \<^verbatim>\<open>textExtra\<close> that cannot be iterated (no fall back to the caption takes
  place); a caption that is no string; a record that is no mapping; an annotation whose
  name cannot be rendered (an integer beyond the digit limit).
\<close>

theorem malformed_record_raises:
  "extract_hashtags (int_format 4300)
     (PDict [(''textExtra'', PList [PDict [(''hashtagName'', PStr ''a'')], PStr ''b'']),
             (''desc'', PStr ''#c'')])
     = Inl (no_attribute (PStr ''b'') ''get'') \<and>
   extract_hashtags (int_format 4300) (PDict [(''textExtra'', PInt 5), (''desc'', PStr ''#c'')])
     = Inl (not_iterable (PInt 5)) \<and>
   extract_hashtags (int_format 4300) (PDict [(''desc'', PInt 5)])
     = Inl (no_attribute (PInt 5) ''split'') \<and>
   extract_hashtags (int_format 4300) (PList []) = Inl (no_attribute (PList []) ''get'') \<and>
   extract_hashtags (int_format 4300)
     (PDict [(''textExtra'', PList [PDict [(''hashtagName'', PInt (10 ^ 4300))]]),
             (''desc'', PStr ''#c'')])
     = Inl (digit_limit 4300)"
proof -
  have a: "extract_hashtags (int_format 4300)
     (PDict [(''textExtra'', PList [PDict [(''hashtagName'', PStr ''a'')], PStr ''b'']),
             (''desc'', PStr ''#c'')])
     = Inl (no_attribute (PStr ''b'') ''get'')"
    by (simp add: extract_hashtags_def py_or_def dict_get_def)
  have b: "extract_hashtags (int_format 4300)
      (PDict [(''textExtra'', PInt 5), (''desc'', PStr ''#c'')])
     = Inl (not_iterable (PInt 5))"
    by (simp add: extract_hashtags_def py_or_def dict_get_def)
  have c: "extract_hashtags (int_format 4300) (PDict [(''desc'', PInt 5)])
     = Inl (no_attribute (PInt 5) ''split'')"
    by (simp add: extract_hashtags_def caption_tags_def py_or_def dict_get_def)
  have d: "extract_hashtags (int_format 4300) (PList []) = Inl (no_attribute (PList []) ''get'')"
    by (simp add: extract_hashtags_def)
  have "(4300::nat) \<noteq> 0" by simp
  then have e: "extract_hashtags (int_format 4300)
     (PDict [(''textExtra'', PList [PDict [(''hashtagName'', PInt (10 ^ 4300))]]),
             (''desc'', PStr ''#c'')])
     = Inl (digit_limit 4300)"
    by (rule unrendered_name)
  from a b c d e show ?thesis by (intro conjI)
qed

text \<open>
  Claim C8, amended. The extraction returns exactly when the record is a mapping, its
  \<^verbatim>\<open>textExtra\<close> is falsy or a list of mappings whose truthy \<^verbatim>\<open>hashtagName\<close> values can
  be rendered (a string always can), and, if no annotation has a truthy name, its
  \<^verbatim>\<open>desc\<close> is falsy or a string; for every other record it raises. When it returns, it
  takes \<^verbatim>\<open>#\<close> followed by the name for each annotation with a truthy name, in order, if
  there is one, and otherwise the tokens of the caption between runs of white space that
  begin with \<^verbatim>\<open>#\<close>; of these tags it keeps, in their order, each one whose lower-case
  form no earlier tag has: the result is a subsequence of the tags, no two of its
  elements have the same lower-case form, every tag has its lower-case form in the
  result, and each element of the result is the first tag with its lower-case form. With
  no annotation and the caption \<^verbatim>\<open>check this #Fun #fun #NEW\<close> the result is
  \<^verbatim>\<open>["#Fun", "#NEW"]\<close>.
\<close>

theorem hashtag_extraction:
  "(extract_hashtags fmt data = Inr res) =
     (\<exists>kvs xs tags.
        data = PDict kvs \<and> py_or (dict_get kvs ''textExtra'') (PList []) = PList xs \<and>
        structured_tags fmt xs = Inr tags \<and>
        (if tags \<noteq> [] then res = uniq_tags {} tags
         else \<exists>s. py_or (dict_get kvs ''desc'') (PStr []) = PStr s \<and>
                  res = uniq_tags {} (filter startswith_hash (py_split s)))) \<and>
   (structured_tags fmt ys = Inr ts) =
     ((\<forall>x\<in>set ys. is_dict x \<and>
          (truthy (dict_get (items_of x) ''hashtagName'') \<longrightarrow>
             (\<exists>t. hashtag fmt (dict_get (items_of x) ''hashtagName'') = Inr t))) \<and>
      ts = map (\<lambda>x. projr (hashtag fmt (dict_get (items_of x) ''hashtagName'')))
             (filter (\<lambda>x. truthy (dict_get (items_of x) ''hashtagName'')) ys)) \<and>
   hashtag fmt (PStr n) = Inr (CHR ''#'' # n) \<and>
   py_split [] = [] \<and>
   ((\<forall>c\<in>set w. \<not> py_isspace c) \<and> w \<noteq> [] \<longrightarrow> py_split w = [w]) \<and>
   (py_isspace c \<longrightarrow> py_split (a @ c # b) = py_split a @ py_split b) \<and>
   subseq (uniq_tags {} zs) zs \<and>
   distinct (map py_lower (uniq_tags {} zs)) \<and>
   py_lower ` set (uniq_tags {} zs) = py_lower ` set zs \<and>
   (\<forall>r\<in>set (uniq_tags {} zs). find (\<lambda>t. py_lower t = py_lower r) zs = Some r) \<and>
   extract_hashtags fmt (PDict [(''desc'', PStr ''check this #Fun #fun #NEW'')])
     = Inr [''#Fun'', ''#NEW'']"
proof -
  have e: "extract_hashtags fmt (PDict [(''desc'', PStr ''check this #Fun #fun #NEW'')])
     = Inr [''#Fun'', ''#NEW'']"
    by (simp add: hashtag_eval)
  have s1: "py_split [] = []" by (simp add: py_split_def)
  have s2: "(\<forall>c\<in>set w. \<not> py_isspace c) \<and> w \<noteq> [] \<longrightarrow> py_split w = [w]"
    by (simp add: py_split_def split_from_word)
  have s3: "py_isspace c \<longrightarrow> py_split (a @ c # b) = py_split a @ py_split b"
    by (simp add: py_split_def split_from_space)
  have u: "py_lower ` set (uniq_tags {} zs) = py_lower ` set zs" by (simp add: uniq_lowers)
  have f: "\<forall>r\<in>set (uniq_tags {} zs). find (\<lambda>t. py_lower t = py_lower r) zs = Some r"
    by (simp add: uniq_first)
  have h: "hashtag fmt (PStr n) = Inr (CHR ''#'' # n)" by simp
  from extract_hashtags_value [of fmt data res] structured_tags_value [of fmt ys ts] h s1 s2 s3
    uniq_subseq [of "{}" zs] uniq_distinct [of "{}" zs] u f e
  show ?thesis by (intro conjI)
qed

text \<open>
  A record with the annotations \<^verbatim>\<open>Fun\<close>, a mention, \<^verbatim>\<open>fun\<close> and \<^verbatim>\<open>NEW\<close>: the caption
  is not looked at. Then the record of the claim, and the splitting of a caption of two
  words.
\<close>

theorem hashtag_extraction_witness:
  "py_or (dict_get annotated_record ''textExtra'') (PList []) = PList annotations \<and>
   structured_tags (int_format 4300) annotations = Inr [''#Fun'', ''#fun'', ''#NEW''] \<and>
   extract_hashtags (int_format 4300) (PDict annotated_record) = Inr [''#Fun'', ''#NEW''] \<and>
   find (\<lambda>t. py_lower t = py_lower ''#Fun'') [''#Fun'', ''#fun'', ''#NEW''] = Some ''#Fun'' \<and>
   extract_hashtags (int_format 4300) (PDict plain_record) = Inr [''#Fun'', ''#NEW''] \<and>
   py_isspace (CHR '' '') \<and> \<not> py_isspace (CHR ''a'') \<and> \<not> py_isspace (CHR ''b'') \<and>
   py_split ''a b'' = [''a'', ''b'']"
proof -
  have l: "py_or (dict_get annotated_record ''textExtra'') (PList []) = PList annotations"
    by (simp add: annotated_record_def annotations_def py_or_def dict_get_def)
  have t: "structured_tags (int_format 4300) annotations = Inr [''#Fun'', ''#fun'', ''#NEW'']"
    by (simp add: annotations_def dict_get_def)
  have u: "uniq_tags {} [''#Fun'', ''#fun'', ''#NEW''] = [''#Fun'', ''#NEW'']"
    by (simp add: py_lower_def lower_char_def char_of_def bit_Suc_0_iff)
  have p: "py_isspace (CHR '' '')" "\<not> py_isspace (CHR ''a'')" "\<not> py_isspace (CHR ''b'')"
    by (simp_all add: py_isspace_def)
  note h = hashtag_extraction [where fmt = "int_format 4300" and data = "PDict annotated_record"
      and res = "[''#Fun'', ''#NEW'']" and zs = "[''#Fun'', ''#fun'', ''#NEW'']"
      and c = "CHR '' ''" and a = "''a''" and b = "''b''" and w = "''a''"]
  note h' = hashtag_extraction [where fmt = "int_format 4300" and w = "''b''"]
  have "\<exists>kvs xs tags.
        PDict annotated_record = PDict kvs \<and>
        py_or (dict_get kvs ''textExtra'') (PList []) = PList xs \<and>
        structured_tags (int_format 4300) xs = Inr tags \<and>
        (if tags \<noteq> [] then [''#Fun'', ''#NEW''] = uniq_tags {} tags
         else \<exists>s. py_or (dict_get kvs ''desc'') (PStr []) = PStr s \<and>
                  [''#Fun'', ''#NEW''] = uniq_tags {} (filter startswith_hash (py_split s)))"
    by (rule exI [of _ annotated_record], rule exI [of _ annotations],
        rule exI [of _ "[''#Fun'', ''#fun'', ''#NEW'']"])
      (simp add: l t py_lower_def lower_char_def char_of_def bit_Suc_0_iff)
  with h have e1: "extract_hashtags (int_format 4300) (PDict annotated_record)
      = Inr [''#Fun'', ''#NEW'']"
    by blast
  from h have "\<forall>r\<in>set (uniq_tags {} [''#Fun'', ''#fun'', ''#NEW'']).
      find (\<lambda>t. py_lower t = py_lower r) [''#Fun'', ''#fun'', ''#NEW''] = Some r"
    by blast
  moreover have "''#Fun'' \<in> set (uniq_tags {} [''#Fun'', ''#fun'', ''#NEW''])"
    by (simp only: u) simp
  ultimately have e2: "find (\<lambda>t. py_lower t = py_lower ''#Fun'') [''#Fun'', ''#fun'', ''#NEW'']
      = Some ''#Fun''"
    by (rule bspec)
  from h have e3: "extract_hashtags (int_format 4300) (PDict plain_record)
      = Inr [''#Fun'', ''#NEW'']"
    by (simp add: plain_record_def)
  from h p have s1: "py_split ''a'' = [''a'']" by simp
  from h' p have s2: "py_split ''b'' = [''b'']" by simp
  from h p have "py_split (''a'' @ CHR '' '' # ''b'') = py_split ''a'' @ py_split ''b''" by blast
  with s1 s2 have e4: "py_split ''a b'' = [''a'', ''b'']" by simp
  from l t e1 e2 e3 p e4 show ?thesis by (intro conjI)
qed

section \<open>Derived fields never raise\<close>




section \<open>The unused setting\<close>

lemma item_except_unused:
  "item_except (cfg\<lparr>MAX_CONSECUTIVE_ERRORS := a\<rparr>) st v = item_except cfg st v"
  by (simp add: item_except_def)

lemma item_unused: "item (cfg\<lparr>MAX_CONSECUTIVE_ERRORS := a\<rparr>) st v = item cfg st v"
  by (simp add: item_def item_except_unused split: prod.split flow.split)

lemma page_items_unused:
  "page_items (cfg\<lparr>MAX_CONSECUTIVE_ERRORS := a\<rparr>) st vs = page_items cfg st vs"
  by (induction vs arbitrary: st) (simp_all add: item_unused split: prod.split flow.split)

lemma page_try_unused: "page_try (cfg\<lparr>MAX_CONSECUTIVE_ERRORS := a\<rparr>) st pg = page_try cfg st pg"
  by (simp add: page_try_def page_items_unused)

lemma page_except_unused:
  "page_except (cfg\<lparr>MAX_CONSECUTIVE_ERRORS := a\<rparr>) st pg = page_except cfg st pg"
  by (simp add: page_except_def expo_def)

lemma page_guarded_unused:
  "page_guarded (cfg\<lparr>MAX_CONSECUTIVE_ERRORS := a\<rparr>) st pg = page_guarded cfg st pg"
  by (simp add: page_guarded_def page_try_unused page_except_unused
      split: prod.split flow.split)

lemma iteration_unused:
  "iteration (cfg\<lparr>MAX_CONSECUTIVE_ERRORS := a\<rparr>) w st = iteration cfg w st"
  by (simp add: iteration_def request_def page_guarded_unused)

lemma run_loop_unused:
  "run_loop (cfg\<lparr>MAX_CONSECUTIVE_ERRORS := a\<rparr>) w st = run_loop cfg w st"
proof (induction cfg w st rule: run_loop.induct)
  case (1 cfg w st)
  show ?case
  proof (cases "int (downloaded_count st) < COUNT cfg \<and> int (loops st) < MAX_LOOPS cfg")
    case False
    then show ?thesis by (simp add: run_loop_stop)
  next
    case True
    obtain st1 f where it: "iteration cfg w st = (st1, f)" by (cases "iteration cfg w st")
    show ?thesis
    proof (cases f)
      case Raise
      with True it show ?thesis by (simp add: run_loop_raise iteration_unused)
    next
      case Continue
      with True it "1.IH" [OF True it [symmetric]] show ?thesis
        by (simp add: run_loop_continue iteration_unused)
    qed
  qed
qed

text \<open>
  Claim C10. \<^verbatim>\<open>MAX_CONSECUTIVE_ERRORS\<close> is read at line 24 and used nowhere: two runs
  that differ only in its value end in the same state (the rows and lines written, the
  files saved, the sleeps, the number of sessions created, every counter) and in the same
  way.
\<close>

theorem max_consecutive_errors_unused:
  "trending_videos (cfg\<lparr>MAX_CONSECUTIVE_ERRORS := a\<rparr>) w
     = trending_videos (cfg\<lparr>MAX_CONSECUTIVE_ERRORS := b\<rparr>) w"
  by (simp add: trending_videos_def run_loop_unused)

end
